theory Spec2Isabelle
  imports Main "HOL-Library.Word" "HOL-Library.Multiset"
begin

unbundle bit_operations_syntax

section \<open>Data model of assoc.c\<close>

text \<open>
  An item pointer is an address; the address 0 is the C null pointer. Of an item,
  assoc.c reads the key bytes (\<open>ITEM_key(it)\<close>, \<open>it->nkey\<close> of them) and reads and
  writes the chain link \<open>it->h_next\<close>. The key is a byte string and \<open>nkey\<close> is its
  length.
\<close>

record item =
  ITEM_key :: string
  h_next :: nat

definition nkey :: "item \<Rightarrow> nat" where
  "nkey it = length (ITEM_key it)"

text \<open>
  The module-level variables of assoc.c, together with the memory they point into:
  \<open>arrays\<close> holds the bucket arrays obtained from \<open>calloc\<close> (a freed array is no
  longer in its domain) and \<open>items\<close> is the memory of the item objects, which are
  owned by the caller. \<open>primary_hashtable\<close> and \<open>old_hashtable\<close> are array pointers
  (0 is null). \<open>maintenance_lock\<close> is true while some thread holds the mutex.
  The unsigned counters are natural numbers; every arithmetic step on them writes the
  wrap-around of its C type out.
\<close>

record assoc_state =
  hashpower :: nat
  primary_hashtable :: nat
  old_hashtable :: nat
  expanding :: bool
  expand_bucket :: nat
  hash_bulk_move :: int
  maintenance_lock :: bool
  arrays :: "nat \<rightharpoonup> nat list"
  items :: "nat \<Rightarrow> item"

text \<open>\<open>hashsize(n)\<close> is \<open>(uint64_t)1 << n\<close> and \<open>hashmask(n)\<close> is \<open>hashsize(n) - 1\<close>,
  both in 64-bit unsigned arithmetic.\<close>

definition hashsize :: "nat \<Rightarrow> nat" where
  "hashsize n = 2 ^ n mod 2 ^ 64"

definition hashmask :: "nat \<Rightarrow> nat" where
  "hashmask n = (hashsize n + 2 ^ 64 - 1) mod 2 ^ 64"

text \<open>\<open>hashpower - 1\<close> on an \<open>unsigned int\<close>.\<close>

definition hashpower_pred :: "nat \<Rightarrow> nat" where
  "hashpower_pred n = (n + 2 ^ 32 - 1) mod 2 ^ 32"

text \<open>
  A value of type \<open>item **\<close>: the address of a slot of a bucket array, or the address
  of the \<open>h_next\<close> field of an item.
\<close>

datatype link = Slot nat nat | Next_of nat

text \<open>
  Reading and writing through a link. An access outside an allocated bucket array has
  no defined result (\<open>None\<close>).
\<close>

definition link_get :: "assoc_state \<Rightarrow> link \<Rightarrow> nat option" where
  "link_get st l =
     (case l of
        Slot a i \<Rightarrow>
          (case arrays st a of
             None \<Rightarrow> None
           | Some xs \<Rightarrow> if i < length xs then Some (xs ! i) else None)
      | Next_of p \<Rightarrow> Some (h_next (items st p)))"

definition link_set :: "assoc_state \<Rightarrow> link \<Rightarrow> nat \<Rightarrow> assoc_state option" where
  "link_set st l v =
     (case l of
        Slot a i \<Rightarrow>
          (case arrays st a of
             None \<Rightarrow> None
           | Some xs \<Rightarrow>
               if i < length xs then Some (st\<lparr>arrays := (arrays st)(a \<mapsto> xs[i := v])\<rparr>)
               else None)
      | Next_of p \<Rightarrow> Some (st\<lparr>items := (items st)(p := (items st p)\<lparr>h_next := v\<rparr>)\<rparr>))"

section \<open>Bucket addressing\<close>

text \<open>
  The bucket that \<open>assoc_find\<close> starts from (lines 81-88). Its \<open>oldbucket\<close> is an
  \<open>unsigned int\<close>, so the 64-bit value of \<open>hv & hashmask(hashpower - 1)\<close> is cut to 32
  bits by the assignment.
\<close>

definition assoc_find_slot :: "assoc_state \<Rightarrow> 32 word \<Rightarrow> link" where
  "assoc_find_slot st hv =
     (let oldbucket = (unat hv AND hashmask (hashpower_pred (hashpower st))) mod 2 ^ 32
      in if expanding st \<and> oldbucket \<ge> expand_bucket st
         then Slot (old_hashtable st) oldbucket
         else Slot (primary_hashtable st) (unat hv AND hashmask (hashpower st)))"

text \<open>The bucket that \<open>_hashitem_before\<close> starts from (lines 118-122); \<open>oldbucket\<close> is
  a \<open>uint64_t\<close> here.\<close>

definition hashitem_before_slot :: "assoc_state \<Rightarrow> 32 word \<Rightarrow> link" where
  "hashitem_before_slot st hv =
     (let oldbucket = unat hv AND hashmask (hashpower_pred (hashpower st))
      in if expanding st \<and> oldbucket \<ge> expand_bucket st
         then Slot (old_hashtable st) oldbucket
         else Slot (primary_hashtable st) (unat hv AND hashmask (hashpower st)))"

text \<open>The bucket that \<open>assoc_insert\<close> pushes onto (lines 193-204).\<close>

definition assoc_insert_slot :: "assoc_state \<Rightarrow> 32 word \<Rightarrow> link" where
  "assoc_insert_slot st hv =
     (let oldbucket = unat hv AND hashmask (hashpower_pred (hashpower st))
      in if expanding st \<and> oldbucket \<ge> expand_bucket st
         then Slot (old_hashtable st) oldbucket
         else Slot (primary_hashtable st) (unat hv AND hashmask (hashpower st)))"

text \<open>
  The addressing rule in the words of the specification, over the lengths of the two
  arrays: not expanding, \<open>primary[hash & (primary_length - 1)]\<close>; expanding,
  \<open>old_bucket = hash & (old_length - 1)\<close>, and \<open>old[old_bucket]\<close> if
  \<open>old_bucket >= migration_cursor\<close>, otherwise \<open>primary[hash & (primary_length - 1)]\<close>.
\<close>

definition array_length :: "assoc_state \<Rightarrow> nat \<Rightarrow> nat" where
  "array_length st a = (case arrays st a of None \<Rightarrow> 0 | Some xs \<Rightarrow> length xs)"



section \<open>Start-up\<close>

datatype error = Init_failed | Assertion_failed

text \<open>
  \<open>calloc(n, sizeof(void *))\<close>: the allocator hands out the address \<open>new\<close> of a zeroed
  array of \<open>n\<close> slots, or the null pointer 0 when it fails. Which address it picks is
  the allocator's choice, so \<open>new\<close> is an argument of every function that allocates.
\<close>

definition calloc :: "nat \<Rightarrow> nat \<Rightarrow> assoc_state \<Rightarrow> assoc_state" where
  "calloc new n st =
     (if new = 0 then st else st\<lparr>arrays := (arrays st)(new \<mapsto> replicate n 0)\<rparr>)"

text \<open>
  The variables as the C initialisers leave them; \<open>HASHPOWER_DEFAULT\<close> comes from
  memcached.h and is an argument, \<open>mem\<close> is the memory of the items.
\<close>

definition initial_state :: "nat \<Rightarrow> (nat \<Rightarrow> item) \<Rightarrow> assoc_state" where
  "initial_state HASHPOWER_DEFAULT mem =
     \<lparr>hashpower = HASHPOWER_DEFAULT, primary_hashtable = 0, old_hashtable = 0,
      expanding = False, expand_bucket = 0, hash_bulk_move = 1,
      maintenance_lock = False, arrays = Map.empty, items = mem\<rparr>"

text \<open>\<open>assoc_init\<close> (lines 56-73); \<open>exit(EXIT_FAILURE)\<close> is the error \<open>Init_failed\<close>. The
  statistics written under \<open>STATS_LOCK\<close> belong to another module and are left out.\<close>

definition assoc_init :: "int \<Rightarrow> nat \<Rightarrow> assoc_state \<Rightarrow> error + assoc_state" where
  "assoc_init hashtable_init new st =
     (let st1 = (if hashtable_init \<noteq> 0
                 then st\<lparr>hashpower := nat (hashtable_init mod 2 ^ 32)\<rparr> else st);
          st2 = (calloc new (hashsize (hashpower st1)) st1)\<lparr>primary_hashtable := new\<rparr>
      in if primary_hashtable st2 = 0 then Inl Init_failed else Inr st2)"

section \<open>Find, insert, delete\<close>

text \<open>\<open>memcmp(a, b, n) == 0\<close>: the first \<open>n\<close> bytes agree.\<close>

definition memcmp_eq :: "string \<Rightarrow> string \<Rightarrow> nat \<Rightarrow> bool" where
  "memcmp_eq a b n \<longleftrightarrow> take n a = take n b"

text \<open>
  The chain walk of \<open>assoc_find\<close> (lines 90-100). A walk that never reaches the end of
  the chain has the value \<open>None\<close>; the returned pointer is 0 when no item matches.
  The argument \<open>key\<close> is the byte string of length \<open>nkey\<close>.
\<close>

partial_function (option) find_loop :: "(nat \<Rightarrow> item) \<Rightarrow> string \<Rightarrow> nat \<Rightarrow> nat option" where
  "find_loop mem key it =
     (if it = 0 then Some 0
      else if length key = nkey (mem it) \<and> memcmp_eq key (ITEM_key (mem it)) (length key)
      then Some it
      else find_loop mem key (h_next (mem it)))"

definition assoc_find :: "assoc_state \<Rightarrow> string \<Rightarrow> 32 word \<Rightarrow> nat option" where
  "assoc_find st key hv =
     (case link_get st (assoc_find_slot st hv) of
        None \<Rightarrow> None
      | Some it \<Rightarrow> find_loop (items st) key it)"

text \<open>\<open>_hashitem_before\<close> (lines 113-130): the link that points to the item with the
  key, or the link that ends the chain.\<close>

partial_function (option) hashitem_before_loop ::
  "assoc_state \<Rightarrow> string \<Rightarrow> link \<Rightarrow> link option" where
  "hashitem_before_loop st key pos =
     (case link_get st pos of
        None \<Rightarrow> None
      | Some p \<Rightarrow>
          if p \<noteq> 0 \<and> (length key \<noteq> nkey (items st p)
                      \<or> \<not> memcmp_eq key (ITEM_key (items st p)) (length key))
          then hashitem_before_loop st key (Next_of p)
          else Some pos)"

definition hashitem_before :: "assoc_state \<Rightarrow> string \<Rightarrow> 32 word \<Rightarrow> link option" where
  "hashitem_before st key hv = hashitem_before_loop st key (hashitem_before_slot st hv)"

text \<open>\<open>assoc_insert\<close> (lines 187-208); it always returns 1, so only the new state is
  kept.\<close>

definition assoc_insert :: "assoc_state \<Rightarrow> nat \<Rightarrow> 32 word \<Rightarrow> assoc_state option" where
  "assoc_insert st it hv =
     (let slot = assoc_insert_slot st hv
      in case link_get st slot of
           None \<Rightarrow> None
         | Some head \<Rightarrow>
             link_set (st\<lparr>items := (items st)(it := (items st it)\<lparr>h_next := head\<rparr>)\<rparr>) slot it)"

text \<open>\<open>assoc_delete\<close> (lines 217-238); the failing \<open>assert\<close> is the error
  \<open>Assertion_failed\<close>.\<close>

definition assoc_delete :: "assoc_state \<Rightarrow> string \<Rightarrow> 32 word \<Rightarrow> (error + assoc_state) option" where
  "assoc_delete st key hv =
     (case hashitem_before st key hv of
        None \<Rightarrow> None
      | Some before \<Rightarrow>
          (case link_get st before of
             None \<Rightarrow> None
           | Some p \<Rightarrow>
               if p \<noteq> 0
               then let nxt = h_next (items st p);
                        st1 = st\<lparr>items := (items st)(p := (items st p)\<lparr>h_next := 0\<rparr>)\<rparr>
                    in map_option Inr (link_set st1 before nxt)
               else Some (Inl Assertion_failed)))"

section \<open>Expansion\<close>

text \<open>\<open>assoc_expand\<close> (lines 136-163); \<open>new\<close> is what \<open>calloc\<close> returns.\<close>

definition assoc_expand :: "nat \<Rightarrow> assoc_state \<Rightarrow> assoc_state" where
  "assoc_expand new st =
     (let st1 = st\<lparr>old_hashtable := primary_hashtable st\<rparr>;
          st2 = (calloc new (hashsize ((hashpower st1 + 1) mod 2 ^ 32)) st1)
                  \<lparr>primary_hashtable := new\<rparr>
      in if primary_hashtable st2 \<noteq> 0
         then st2\<lparr>hashpower := (hashpower st2 + 1) mod 2 ^ 32,
                  expanding := True, expand_bucket := 0\<rparr>
         else st2\<lparr>primary_hashtable := old_hashtable st2\<rparr>)"

text \<open>
  \<open>assoc_start_expand\<close> (lines 171-183). \<open>HASHPOWER_MAX\<close> comes from memcached.h and is
  an argument. The result says whether \<open>pthread_cond_signal\<close> was called, and gives the
  state afterwards. \<open>pthread_mutex_trylock\<close> succeeds exactly when nobody holds the lock.
\<close>

definition assoc_start_expand :: "nat \<Rightarrow> nat \<Rightarrow> assoc_state \<Rightarrow> bool \<times> assoc_state" where
  "assoc_start_expand HASHPOWER_MAX curr_items st =
     (if \<not> maintenance_lock st
      then let st1 = st\<lparr>maintenance_lock := True\<rparr>;
               signal = (curr_items > (hashsize (hashpower st1) * 3) mod 2 ^ 64 div 2
                         \<and> hashpower st1 < HASHPOWER_MAX)
           in (signal, st1\<lparr>maintenance_lock := False\<rparr>)
      else (False, st))"

text \<open>
  The migration of one bucket in \<open>assoc_maintenance_thread\<close>. \<open>hash\<close> is the hash
  function of hash.h, applied to the \<open>nkey\<close> bytes of the key. The inner loop
  (lines 271-276) pushes each item of the old chain onto its primary bucket.
\<close>

partial_function (option) relink_loop ::
  "(string \<Rightarrow> 32 word) \<Rightarrow> assoc_state \<Rightarrow> nat \<Rightarrow> assoc_state option" where
  "relink_loop hash st it =
     (if it = 0 then Some st
      else let nxt = h_next (items st it);
               bucket = unat (hash (ITEM_key (items st it))) AND hashmask (hashpower st)
           in case link_get st (Slot (primary_hashtable st) bucket) of
                None \<Rightarrow> None
              | Some head \<Rightarrow>
                  (case link_set (st\<lparr>items := (items st)(it := (items st it)\<lparr>h_next := head\<rparr>)\<rparr>)
                          (Slot (primary_hashtable st) bucket) it of
                     None \<Rightarrow> None
                   | Some st' \<Rightarrow> relink_loop hash st' nxt))"

text \<open>Lines 271-280: relink the chain, clear the old bucket, advance the cursor.\<close>

definition migrate_bucket :: "(string \<Rightarrow> 32 word) \<Rightarrow> assoc_state \<Rightarrow> assoc_state option" where
  "migrate_bucket hash st =
     (case link_get st (Slot (old_hashtable st) (expand_bucket st)) of
        None \<Rightarrow> None
      | Some it \<Rightarrow>
          (case relink_loop hash st it of
             None \<Rightarrow> None
           | Some st1 \<Rightarrow>
               (case link_set st1 (Slot (old_hashtable st1) (expand_bucket st1)) 0 of
                  None \<Rightarrow> None
                | Some st2 \<Rightarrow>
                    Some (st2\<lparr>expand_bucket := (expand_bucket st2 + 1) mod 2 ^ 64\<rparr>))))"

text \<open>Lines 281-293: when the cursor reaches the end of the old array, expansion is over
  and the old array is freed.\<close>

definition expansion_done :: "assoc_state \<Rightarrow> assoc_state" where
  "expansion_done st =
     (if expand_bucket st = hashsize (hashpower_pred (hashpower st))
      then st\<lparr>expanding := False, arrays := (arrays st)(old_hashtable st := None)\<rparr>
      else st)"

text \<open>
  The body of the \<open>for\<close> loop (lines 263-302). \<open>item_trylock\<close> belongs to the caller's
  locking; \<open>trylock b\<close> says whether the lock of bucket \<open>b\<close> is free. When it is not,
  the body only sleeps.
\<close>

definition maintenance_move ::
  "(string \<Rightarrow> 32 word) \<Rightarrow> (nat \<Rightarrow> bool) \<Rightarrow> assoc_state \<Rightarrow> assoc_state option" where
  "maintenance_move hash trylock st =
     (if trylock (expand_bucket st)
      then map_option expansion_done (migrate_bucket hash st)
      else Some st)"

text \<open>The \<open>for\<close> loop (line 262), \<open>bulk\<close> being the value of \<open>hash_bulk_move\<close>, which the
  loop does not write.\<close>

function bulk_move_loop ::
  "(string \<Rightarrow> 32 word) \<Rightarrow> (nat \<Rightarrow> bool) \<Rightarrow> int \<Rightarrow> int \<Rightarrow> assoc_state \<Rightarrow> assoc_state option" where
  "bulk_move_loop hash trylock bulk ii st =
     (if ii < bulk \<and> expanding st
      then (case maintenance_move hash trylock st of
              None \<Rightarrow> None
            | Some st' \<Rightarrow> bulk_move_loop hash trylock bulk (ii + 1) st')
      else Some st)"
  by pat_completeness auto
termination
  by (relation "measure (\<lambda>(hash, trylock, bulk, ii, st). nat (bulk - ii))") auto

definition bulk_move ::
  "(string \<Rightarrow> 32 word) \<Rightarrow> (nat \<Rightarrow> bool) \<Rightarrow> assoc_state \<Rightarrow> assoc_state option" where
  "bulk_move hash trylock st = bulk_move_loop hash trylock (hash_bulk_move st) 0 st"

text \<open>
  The \<open>while\<close> loop of the thread (line 258) from a state in which the table is
  expanding until it arrives at \<open>pthread_cond_wait\<close>, which it does when the \<open>for\<close>
  loop leaves the table not expanding. \<open>None\<close>: it never arrives there.
\<close>

partial_function (option) expansion_phase ::
  "(string \<Rightarrow> 32 word) \<Rightarrow> (nat \<Rightarrow> bool) \<Rightarrow> assoc_state \<Rightarrow> assoc_state option" where
  "expansion_phase hash trylock st =
     (case bulk_move hash trylock st of
        None \<Rightarrow> None
      | Some st' \<Rightarrow> if expanding st' then expansion_phase hash trylock st' else Some st')"

text \<open>
  The thread between two waits (lines 305-318 and the loop again): woken while the
  table is stable, it calls \<open>assoc_expand\<close> and migrates until the table is stable.
\<close>

definition expansion_cycle ::
  "(string \<Rightarrow> 32 word) \<Rightarrow> (nat \<Rightarrow> bool) \<Rightarrow> nat \<Rightarrow> assoc_state \<Rightarrow> assoc_state option" where
  "expansion_cycle hash trylock new st =
     (let st1 = assoc_expand new st
      in if expanding st1 then expansion_phase hash trylock st1 else Some st1)"

section \<open>Starting the maintenance thread\<close>

text \<open>
  \<open>atoi\<close> of the C library: skip white space, read an optional sign, then decimal
  digits up to the first other character; no digits give 0. The C standard leaves the
  result undefined when the number does not fit an \<open>int\<close>. The model follows the GNU C
  library, where \<open>atoi(s)\<close> is \<open>(int) strtol(s, NULL, 10)\<close>: \<open>strtol\<close> gives \<open>LONG_MAX\<close> or
  \<open>LONG_MIN\<close> (of 64 bits) for a number beyond them, and the conversion to the 32-bit
  \<open>int\<close> keeps the low 32 bits.
\<close>

definition isspace :: "char \<Rightarrow> bool" where
  "isspace c \<longleftrightarrow> (of_char c :: nat) = 32 \<or> (9 \<le> (of_char c :: nat) \<and> (of_char c :: nat) \<le> 13)"

definition isdigit :: "char \<Rightarrow> bool" where
  "isdigit c \<longleftrightarrow> 48 \<le> (of_char c :: nat) \<and> (of_char c :: nat) \<le> 57"

fun atoi_digits :: "int \<Rightarrow> string \<Rightarrow> int" where
  "atoi_digits acc [] = acc"
| "atoi_digits acc (c # cs) =
     (if isdigit c then atoi_digits (10 * acc + (of_char c - 48)) cs else acc)"

definition strtol :: "string \<Rightarrow> int" where
  "strtol s =
     (let n = (case dropWhile isspace s of
                 [] \<Rightarrow> 0
               | c # cs \<Rightarrow>
                   if c = CHR ''-'' then - atoi_digits 0 cs
                   else if c = CHR ''+'' then atoi_digits 0 cs
                   else atoi_digits 0 (c # cs))
      in max (- (2 ^ 63)) (min (2 ^ 63 - 1) n))"

definition int_of_long :: "int \<Rightarrow> int" where
  "int_of_long x = (x + 2 ^ 31) mod 2 ^ 32 - 2 ^ 31"

definition atoi :: "string \<Rightarrow> int" where
  "atoi s = int_of_long (strtol s)"

text \<open>
  \<open>start_assoc_maintenance_thread\<close> (lines 334-344): \<open>env\<close> is what
  \<open>getenv("MEMCACHED_HASH_BULK_MOVE")\<close> returns, \<open>None\<close> for the null pointer. The
  creation of the thread is left out. \<open>hash_bulk_move\<close> is an \<open>int\<close>, and so is every value
  of \<open>atoi\<close>.
\<close>

definition start_assoc_maintenance_thread :: "string option \<Rightarrow> assoc_state \<Rightarrow> assoc_state" where
  "start_assoc_maintenance_thread env st =
     (case env of
        None \<Rightarrow> st
      | Some s \<Rightarrow>
          let st1 = st\<lparr>hash_bulk_move := atoi s\<rparr>
          in if hash_bulk_move st1 = 0 then st1\<lparr>hash_bulk_move := 1\<rparr> else st1)"

section \<open>The iterator\<close>

record assoc_iterator =
  iter_bucket :: nat
  iter_it :: nat
  iter_next :: nat
  bucket_locked :: bool

text \<open>
  \<open>assoc_get_iterator\<close> (lines 383-391). \<open>alloc_ok\<close> says whether \<open>calloc\<close> succeeds; the
  result is the iterator (\<open>None\<close> for the null pointer) and the state. \<open>mutex_lock\<close>
  returns only once the lock is free: while another thread holds it the call has no
  result.
\<close>

definition assoc_get_iterator ::
  "bool \<Rightarrow> assoc_state \<Rightarrow> (assoc_iterator option \<times> assoc_state) option" where
  "assoc_get_iterator alloc_ok st =
     (if \<not> alloc_ok then Some (None, st)
      else if maintenance_lock st then None
      else Some (Some \<lparr>iter_bucket = 0, iter_it = 0, iter_next = 0, bucket_locked = False\<rparr>,
                 st\<lparr>maintenance_lock := True\<rparr>))"

text \<open>
  \<open>assoc_iterate\<close> (lines 393-435): the returned flag, the item stored through \<open>it\<close>
  (0 for null) and the iterator afterwards. \<open>item_lock\<close> and \<open>item_unlock\<close> belong to
  the caller's locking; the iterator records which bucket it holds in \<open>bucket_locked\<close>.
\<close>

definition assoc_iterate ::
  "assoc_state \<Rightarrow> assoc_iterator \<Rightarrow> (bool \<times> nat \<times> assoc_iterator) option" where
  "assoc_iterate st iter =
     (if bucket_locked iter
      then (if iter_next iter \<noteq> 0
            then let i1 = iter\<lparr>iter_it := iter_next iter\<rparr>;
                     i2 = i1\<lparr>iter_next := h_next (items st (iter_it i1))\<rparr>
                 in Some (True, iter_it i2, i2)
            else Some (True, 0, iter\<lparr>iter_bucket := (iter_bucket iter + 1) mod 2 ^ 64,
                                     bucket_locked := False\<rparr>))
      else if iter_bucket iter \<noteq> hashsize (hashpower st)
      then (case link_get st (Slot (primary_hashtable st) (iter_bucket iter)) of
              None \<Rightarrow> None
            | Some p \<Rightarrow>
                let i1 = iter\<lparr>bucket_locked := True, iter_it := p\<rparr>
                in if iter_it i1 \<noteq> 0
                   then Some (True, iter_it i1, i1\<lparr>iter_next := h_next (items st (iter_it i1))\<rparr>)
                   else Some (True, 0, i1\<lparr>bucket_locked := False,
                                          iter_bucket := (iter_bucket i1 + 1) mod 2 ^ 64\<rparr>))
      else Some (False, 0, iter))"

text \<open>\<open>assoc_iterate_final\<close> (lines 437-444).\<close>

definition assoc_iterate_final :: "assoc_iterator \<Rightarrow> assoc_state \<Rightarrow> assoc_state" where
  "assoc_iterate_final iter st = st\<lparr>maintenance_lock := False\<rparr>"

text \<open>
  Advancing an iterator to exhaustion, as a caller does: call \<open>assoc_iterate\<close> until it
  returns false and keep the items it stored, in the order of the calls.
\<close>

partial_function (option) iterate_all :: "assoc_state \<Rightarrow> assoc_iterator \<Rightarrow> nat list option" where
  "iterate_all st iter =
     (case assoc_iterate st iter of
        None \<Rightarrow> None
      | Some r \<Rightarrow>
          if fst r
          then Option.bind (iterate_all st (snd (snd r)))
                 (\<lambda>ps. Some (if fst (snd r) \<noteq> 0 then fst (snd r) # ps else ps))
          else Some [])"

section \<open>Sequences of calls\<close>

text \<open>
  The calls that reach the table: \<open>assoc_insert\<close> of an item, \<open>assoc_delete\<close> of a key,
  \<open>assoc_expand\<close> (with the address that \<open>calloc\<close> returns), and one pass of the body
  of the migration loop of the maintenance thread.
\<close>

datatype call = Insert nat | Delete string | Expand nat | Move

text \<open>
  One call. \<open>assoc_insert\<close> and \<open>assoc_delete\<close> are called with the hash of the key. A
  failed assertion in \<open>assoc_delete\<close> ends the run, as does an access outside the
  arrays (\<open>None\<close>).
\<close>

definition step ::
  "(string \<Rightarrow> 32 word) \<Rightarrow> (nat \<Rightarrow> bool) \<Rightarrow> call \<Rightarrow> assoc_state \<Rightarrow> assoc_state option" where
  "step hash trylock c st =
     (case c of
        Insert p \<Rightarrow> assoc_insert st p (hash (ITEM_key (items st p)))
      | Delete key \<Rightarrow>
          (case assoc_delete st key (hash key) of
             Some (Inr st') \<Rightarrow> Some st'
           | _ \<Rightarrow> None)
      | Expand new \<Rightarrow> Some (assoc_expand new st)
      | Move \<Rightarrow> maintenance_move hash trylock st)"

text \<open>
  What the callers keep to. An item is inserted only when it is not null and
  \<open>assoc_find\<close> does not find its key; a key is deleted only when \<open>assoc_find\<close> finds it
  (``the callers don't delete things they can't find'', line 236); the thread calls
  \<open>assoc_expand\<close> only while the table is not expanding (line 305), \<open>hashpower + 1\<close> is
  a shift that 64 bits allow, and \<open>calloc\<close> returns null or an address that is not
  allocated; the body of the migration loop runs only while the table is expanding
  (line 262).
\<close>

definition allowed :: "(string \<Rightarrow> 32 word) \<Rightarrow> call \<Rightarrow> assoc_state \<Rightarrow> bool" where
  "allowed hash c st =
     (case c of
        Insert p \<Rightarrow>
          p \<noteq> 0 \<and> assoc_find st (ITEM_key (items st p)) (hash (ITEM_key (items st p))) = Some 0
      | Delete key \<Rightarrow>
          (case assoc_find st key (hash key) of None \<Rightarrow> False | Some p \<Rightarrow> p \<noteq> 0)
      | Expand new \<Rightarrow>
          \<not> expanding st \<and> hashpower st + 1 < 64 \<and> (new = 0 \<or> arrays st new = None)
      | Move \<Rightarrow> expanding st)"

text \<open>A sequence of calls, one after the other, and what the callers keep to along
  it: each call is allowed in the state that the calls before it have left.\<close>

fun run ::
  "(string \<Rightarrow> 32 word) \<Rightarrow> (nat \<Rightarrow> bool) \<Rightarrow> call list \<Rightarrow> assoc_state \<Rightarrow> assoc_state option" where
  "run hash trylock [] st = Some st"
| "run hash trylock (c # cs) st =
     (case step hash trylock c st of
        None \<Rightarrow> None
      | Some st' \<Rightarrow> run hash trylock cs st')"

fun allowed_run ::
  "(string \<Rightarrow> 32 word) \<Rightarrow> (nat \<Rightarrow> bool) \<Rightarrow> call list \<Rightarrow> assoc_state \<Rightarrow> bool" where
  "allowed_run hash trylock [] st = True"
| "allowed_run hash trylock (c # cs) st =
     (allowed hash c st \<and>
      (case step hash trylock c st of
         None \<Rightarrow> True
       | Some st' \<Rightarrow> allowed_run hash trylock cs st'))"

text \<open>The calls that are inserts and deletes.\<close>

definition updates_only :: "call list \<Rightarrow> bool" where
  "updates_only cs =
     list_all (\<lambda>c. case c of Insert p \<Rightarrow> True | Delete key \<Rightarrow> True
                            | Expand new \<Rightarrow> False | Move \<Rightarrow> False) cs"

section \<open>Well-formed tables\<close>

text \<open>\<open>chain mem p ps\<close>: following \<open>h_next\<close> from \<open>p\<close> visits exactly the items \<open>ps\<close>
  and then reaches the null pointer.\<close>

fun chain :: "(nat \<Rightarrow> item) \<Rightarrow> nat \<Rightarrow> nat list \<Rightarrow> bool" where
  "chain mem p [] = (p = 0)"
| "chain mem p (x # xs) = (p = x \<and> x \<noteq> 0 \<and> chain mem (h_next (mem x)) xs)"

text \<open>The array at \<open>a\<close> is allocated and its slots head the chains \<open>cs\<close>.\<close>

definition buckets_ok :: "assoc_state \<Rightarrow> nat \<Rightarrow> nat list list \<Rightarrow> bool" where
  "buckets_ok st a cs \<longleftrightarrow>
     (case arrays st a of
        None \<Rightarrow> False
      | Some heads \<Rightarrow> list_all2 (chain (items st)) heads cs)"

text \<open>Every item of bucket \<open>i\<close> has a key whose hash is \<open>i\<close> under the mask of \<open>n\<close> bits.\<close>

definition placed :: "(string \<Rightarrow> 32 word) \<Rightarrow> (nat \<Rightarrow> item) \<Rightarrow> nat \<Rightarrow> nat list list \<Rightarrow> bool" where
  "placed hash mem n cs \<longleftrightarrow>
     (\<forall>i < length cs. \<forall>p \<in> set (cs ! i). unat (hash (ITEM_key (mem p))) mod 2 ^ n = i)"

text \<open>
  What holds in addition while the table is expanding: the old array is another,
  allocated array of half the size, the cursor is inside it, the old buckets below the
  cursor are empty, and so are the primary buckets whose old bucket is at or beyond
  the cursor.
\<close>

definition exp_inv ::
  "(string \<Rightarrow> 32 word) \<Rightarrow> assoc_state \<Rightarrow> nat list list \<Rightarrow> nat list list \<Rightarrow> bool" where
  "exp_inv hash st pcs ocs \<longleftrightarrow>
     0 < hashpower st \<and> old_hashtable st \<noteq> 0 \<and>
     old_hashtable st \<noteq> primary_hashtable st \<and>
     expand_bucket st < 2 ^ (hashpower st - 1) \<and>
     length ocs = 2 ^ (hashpower st - 1) \<and>
     buckets_ok st (old_hashtable st) ocs \<and>
     placed hash (items st) (hashpower st - 1) ocs \<and>
     (\<forall>j < length ocs. j < expand_bucket st \<longrightarrow> ocs ! j = []) \<and>
     (\<forall>i < length pcs. expand_bucket st \<le> i mod 2 ^ (hashpower st - 1) \<longrightarrow> pcs ! i = [])"

text \<open>
  The table is well formed, \<open>pcs\<close> and \<open>ocs\<close> being the chains of the primary and of the
  old array: the primary array has the size that \<open>hashpower\<close> says, every item is in
  one chain only and in the bucket of its hash, no two items have the same key, and
  there are old chains only while expanding.
\<close>

definition table_inv ::
  "(string \<Rightarrow> 32 word) \<Rightarrow> assoc_state \<Rightarrow> nat list list \<Rightarrow> nat list list \<Rightarrow> bool" where
  "table_inv hash st pcs ocs \<longleftrightarrow>
     hashpower st < 64 \<and> primary_hashtable st \<noteq> 0 \<and>
     length pcs = 2 ^ hashpower st \<and>
     buckets_ok st (primary_hashtable st) pcs \<and>
     placed hash (items st) (hashpower st) pcs \<and>
     distinct (concat (pcs @ ocs)) \<and>
     distinct (map (\<lambda>p. ITEM_key (items st p)) (concat (pcs @ ocs))) \<and>
     (if expanding st then exp_inv hash st pcs ocs else ocs = [])"

text \<open>The item that a walk along the chain \<open>ps\<close> finds for a key: the first one with
  that key, or the null pointer.\<close>

definition first_match :: "(nat \<Rightarrow> item) \<Rightarrow> string \<Rightarrow> nat list \<Rightarrow> nat" where
  "first_match mem key ps =
     (case filter (\<lambda>p. ITEM_key (mem p) = key) ps of [] \<Rightarrow> 0 | p # qs \<Rightarrow> p)"

text \<open>The bucket of a hash value in a well-formed table, and its chain.\<close>

definition in_old :: "assoc_state \<Rightarrow> 32 word \<Rightarrow> bool" where
  "in_old st hv \<longleftrightarrow> expanding st \<and> expand_bucket st \<le> unat hv mod 2 ^ (hashpower st - 1)"

definition the_slot :: "assoc_state \<Rightarrow> 32 word \<Rightarrow> link" where
  "the_slot st hv =
     (if in_old st hv
      then Slot (old_hashtable st) (unat hv mod 2 ^ (hashpower st - 1))
      else Slot (primary_hashtable st) (unat hv mod 2 ^ hashpower st))"

definition the_chain :: "assoc_state \<Rightarrow> nat list list \<Rightarrow> nat list list \<Rightarrow> 32 word \<Rightarrow> nat list" where
  "the_chain st pcs ocs hv =
     (if in_old st hv
      then ocs ! (unat hv mod 2 ^ (hashpower st - 1))
      else pcs ! (unat hv mod 2 ^ hashpower st))"

text \<open>The link that \<open>_hashitem_before\<close> returns when it starts at the link \<open>pos\<close>
  of the chain \<open>ps\<close>.\<close>

fun before_link :: "(nat \<Rightarrow> item) \<Rightarrow> string \<Rightarrow> link \<Rightarrow> nat list \<Rightarrow> link" where
  "before_link mem key pos [] = pos"
| "before_link mem key pos (p # ps) =
     (if ITEM_key (mem p) = key then pos else before_link mem key (Next_of p) ps)"

text \<open>The chains after item \<open>x\<close> has been pushed onto bucket \<open>i\<close>, and after
  \<open>assoc_insert\<close> of item \<open>p\<close> with hash \<open>hv\<close>.\<close>

definition push :: "nat list list \<Rightarrow> nat \<Rightarrow> nat \<Rightarrow> nat list list" where
  "push cs i x = cs[i := x # cs ! i]"

definition insert_chains ::
  "assoc_state \<Rightarrow> 32 word \<Rightarrow> nat \<Rightarrow> nat list list \<Rightarrow> nat list list \<Rightarrow> nat list list \<times> nat list list" where
  "insert_chains st hv p pcs ocs =
     (if in_old st hv then (pcs, push ocs (unat hv mod 2 ^ (hashpower st - 1)) p)
      else (push pcs (unat hv mod 2 ^ hashpower st) p, ocs))"

text \<open>The state that \<open>assoc_delete\<close> leaves when it splices the item \<open>p\<close> out of the
  chain of slot \<open>i\<close> of the array \<open>a\<close>, \<open>ys\<close> being the items before \<open>p\<close> in
  that chain.\<close>

definition spliced :: "assoc_state \<Rightarrow> nat \<Rightarrow> nat \<Rightarrow> nat list \<Rightarrow> nat \<Rightarrow> assoc_state" where
  "spliced st a i ys p =
     (if ys = []
      then st\<lparr>items := (items st)(p := (items st p)\<lparr>h_next := 0\<rparr>),
              arrays := (arrays st)(a \<mapsto> (the (arrays st a))[i := h_next (items st p)])\<rparr>
      else st\<lparr>items := (items st)(p := (items st p)\<lparr>h_next := 0\<rparr>,
                   last ys := (items st (last ys))\<lparr>h_next := h_next (items st p)\<rparr>)\<rparr>)"

text \<open>The primary chains after the items \<open>ps\<close> of an old chain have been pushed, one
  after the other, each onto the bucket of its key's hash under the mask of \<open>n\<close> bits.\<close>

definition moved ::
  "(string \<Rightarrow> 32 word) \<Rightarrow> (nat \<Rightarrow> item) \<Rightarrow> nat \<Rightarrow> nat list \<Rightarrow> nat list list \<Rightarrow> nat list list" where
  "moved hash mem n ps pcs =
     fold (\<lambda>p cs. push cs (unat (hash (ITEM_key (mem p))) mod 2 ^ n) p) ps pcs"

text \<open>The chains after the bucket at the cursor has been migrated; when it was the
  last bucket the old array is gone.\<close>

definition migrated_pcs ::
  "(string \<Rightarrow> 32 word) \<Rightarrow> assoc_state \<Rightarrow> nat list list \<Rightarrow> nat list list \<Rightarrow> nat list list" where
  "migrated_pcs hash st pcs ocs =
     moved hash (items st) (hashpower st) (ocs ! expand_bucket st) pcs"

definition migrated_ocs :: "assoc_state \<Rightarrow> nat list list \<Rightarrow> nat list list" where
  "migrated_ocs st ocs =
     (if expand_bucket st + 1 = 2 ^ (hashpower st - 1) then []
      else ocs[expand_bucket st := []])"

text \<open>
  The primary chains after a whole expansion of a table of \<open>2 ^ n\<close> buckets with the
  chains \<open>pcs\<close>, \<open>kf\<close> giving the key of an item: bucket \<open>b\<close> of the new array holds the
  items of the old bucket \<open>b mod 2 ^ n\<close> whose hash falls into \<open>b\<close>, in the reverse of
  their old order.
\<close>

definition rehashed ::
  "(string \<Rightarrow> 32 word) \<Rightarrow> (nat \<Rightarrow> string) \<Rightarrow> nat \<Rightarrow> nat list list \<Rightarrow> nat list list" where
  "rehashed hash kf n pcs =
     map (\<lambda>b. rev (filter (\<lambda>p. unat (hash (kf p)) mod 2 ^ (n + 1) = b) (pcs ! (b mod 2 ^ n))))
       [0..<2 ^ (n + 1)]"

text \<open>
  The chains in the middle of an expansion that began with the chains \<open>pcs0\<close>, when
  the old buckets below \<open>c\<close> have been moved: the primary buckets that belong to them
  are as \<open>rehashed\<close> says, the others are empty, and the old buckets from \<open>c\<close> on are as
  they were. \<open>cursor\<close> is the number of old buckets that have been moved.
\<close>

definition cursor :: "assoc_state \<Rightarrow> nat" where
  "cursor st = (if expanding st then expand_bucket st else 2 ^ (hashpower st - 1))"

definition half_moved ::
  "(string \<Rightarrow> 32 word) \<Rightarrow> (nat \<Rightarrow> string) \<Rightarrow> nat \<Rightarrow> nat \<Rightarrow> nat list list \<Rightarrow>
   nat list list \<Rightarrow> nat list list \<Rightarrow> bool" where
  "half_moved hash kf n c pcs0 pcs ocs \<longleftrightarrow>
     (\<forall>b < 2 ^ n. pcs ! b =
        (if b mod 2 ^ (n - 1) < c
         then rev (filter (\<lambda>p. unat (hash (kf p)) mod 2 ^ n = b) (pcs0 ! (b mod 2 ^ (n - 1))))
         else [])) \<and>
     (\<forall>j. c \<le> j \<and> j < 2 ^ (n - 1) \<longrightarrow> ocs ! j = pcs0 ! j)"

text \<open>The number of old buckets still to migrate.\<close>

definition remaining :: "assoc_state \<Rightarrow> nat" where
  "remaining st = (if expanding st then 2 ^ (hashpower st - 1) - expand_bucket st else 0)"

text \<open>What the migration carries over from a state with the chains \<open>cs\<close> to a state with
  the chains \<open>cs'\<close>: the items in the chains, their keys, and the variables that the
  migration does not write.\<close>

definition carried ::
  "assoc_state \<Rightarrow> nat list list \<Rightarrow> assoc_state \<Rightarrow> nat list list \<Rightarrow> bool" where
  "carried st cs st' cs' \<longleftrightarrow>
     mset (concat cs') = mset (concat cs) \<and>
     (\<lambda>q. ITEM_key (items st' q)) = (\<lambda>q. ITEM_key (items st q)) \<and>
     hashpower st' = hashpower st \<and>
     primary_hashtable st' = primary_hashtable st \<and>
     hash_bulk_move st' = hash_bulk_move st \<and>
     maintenance_lock st' = maintenance_lock st"

text \<open>A caller that inserts the items \<open>ps\<close> one after the other, each with the hash
  of its key.\<close>

fun insert_all :: "(string \<Rightarrow> 32 word) \<Rightarrow> assoc_state \<Rightarrow> nat list \<Rightarrow> assoc_state option" where
  "insert_all hash st [] = Some st"
| "insert_all hash st (p # ps) =
     (case assoc_insert st p (hash (ITEM_key (items st p))) of
        None \<Rightarrow> None
      | Some st' \<Rightarrow> insert_all hash st' ps)"

section \<open>The table as the specification words it\<close>

text \<open>
  For the round trip the table is a store from keys to entries: \<open>lookup\<close> is the entry
  that \<open>assoc_find\<close> returns for a key and its hash (0 for none), an insert binds
  the key of the entry to the entry, a delete removes the binding of the key, and the
  expansion changes nothing. \<open>kf\<close> gives the key of an item.
\<close>

definition lookup :: "(string \<Rightarrow> 32 word) \<Rightarrow> assoc_state \<Rightarrow> string \<Rightarrow> nat" where
  "lookup hash st key = (case assoc_find st key (hash key) of None \<Rightarrow> 0 | Some p \<Rightarrow> p)"

fun spec_step :: "(nat \<Rightarrow> string) \<Rightarrow> call \<Rightarrow> (string \<Rightarrow> nat) \<Rightarrow> (string \<Rightarrow> nat)" where
  "spec_step kf (Insert p) m = m(kf p := p)"
| "spec_step kf (Delete key) m = m(key := 0)"
| "spec_step kf (Expand new) m = m"
| "spec_step kf Move m = m"

text \<open>
  The order of iteration as the specification words it: buckets in ascending order
  and, within a bucket, the live entries with the most recently inserted first.
  \<open>live_step\<close> keeps the list of the live entries, the most recently inserted first.
\<close>

fun live_step :: "(nat \<Rightarrow> string) \<Rightarrow> call \<Rightarrow> nat list \<Rightarrow> nat list" where
  "live_step kf (Insert p) L = p # L"
| "live_step kf (Delete key) L = filter (\<lambda>q. kf q \<noteq> key) L"
| "live_step kf (Expand new) L = L"
| "live_step kf Move L = L"

definition recent_first ::
  "(string \<Rightarrow> 32 word) \<Rightarrow> (nat \<Rightarrow> string) \<Rightarrow> nat \<Rightarrow> nat list \<Rightarrow> nat list" where
  "recent_first hash kf n L =
     concat (map (\<lambda>b. filter (\<lambda>p. unat (hash (kf p)) mod 2 ^ n = b) L) [0..<2 ^ n])"

section \<open>The batch size as the specification words it\<close>

text \<open>
  A valid positive value of the environment variable: a decimal numeral, digits only,
  of a positive number that fits an \<open>int\<close>.
\<close>

definition valid_positive :: "string \<Rightarrow> bool" where
  "valid_positive s \<longleftrightarrow>
     s \<noteq> [] \<and> list_all isdigit s \<and> 0 < atoi_digits 0 s \<and> atoi_digits 0 s \<le> 2147483647"

text \<open>A value without a leading number: after the white space and an optional sign
  there is no digit.\<close>

definition no_number :: "string \<Rightarrow> bool" where
  "no_number s \<longleftrightarrow>
     (case dropWhile isspace s of
        [] \<Rightarrow> True
      | c # cs \<Rightarrow>
          if c = CHR ''-'' \<or> c = CHR ''+''
          then (case cs of [] \<Rightarrow> True | d # ds \<Rightarrow> \<not> isdigit d)
          else \<not> isdigit c)"

section \<open>The state invariant as the specification words it\<close>

text \<open>\<open>old\<close> is non-null iff \<open>expanding\<close> is true; \<open>old_length = primary_length / 2\<close>
  while expanding.\<close>

definition spec_old_inv :: "assoc_state \<Rightarrow> bool" where
  "spec_old_inv st \<longleftrightarrow>
     ((old_hashtable st \<noteq> 0) = expanding st) \<and>
     (expanding st \<longrightarrow>
        array_length st (old_hashtable st) = array_length st (primary_hashtable st) div 2)"

text \<open>The part of it that the code maintains: while expanding, the old array is there
  and has half the length of the primary array.\<close>

definition old_inv :: "assoc_state \<Rightarrow> bool" where
  "old_inv st \<longleftrightarrow>
     (expanding st \<longrightarrow>
        old_hashtable st \<noteq> 0 \<and> old_hashtable st \<in> dom (arrays st) \<and>
        array_length st (old_hashtable st) = array_length st (primary_hashtable st) div 2)"

section \<open>Example tables\<close>

text \<open>A hash function for the examples: the code of the first byte of the key.\<close>

definition ex_hash :: "string \<Rightarrow> 32 word" where
  "ex_hash key = (case key of [] \<Rightarrow> 0 | c # cs \<Rightarrow> of_nat (of_char c))"

text \<open>Five items, at the addresses 1 to 5, with the keys a, b, c, d and e (hashes 97
  to 101); item 1 is linked to item 3.\<close>

definition ex_mem :: "nat \<Rightarrow> item" where
  "ex_mem p =
     (if p = 1 then \<lparr>ITEM_key = ''a'', h_next = 3\<rparr>
      else if p = 2 then \<lparr>ITEM_key = ''b'', h_next = 0\<rparr>
      else if p = 3 then \<lparr>ITEM_key = ''c'', h_next = 0\<rparr>
      else if p = 4 then \<lparr>ITEM_key = ''d'', h_next = 0\<rparr>
      else if p = 5 then \<lparr>ITEM_key = ''e'', h_next = 0\<rparr>
      else \<lparr>ITEM_key = [], h_next = 0\<rparr>)"

text \<open>A stable table of two buckets at address 10: bucket 0 holds item 2, bucket 1 the
  items 1 and 3; the items 4 and 5 are in no bucket.\<close>

definition ex_stable :: assoc_state where
  "ex_stable =
     \<lparr>hashpower = 1, primary_hashtable = 10, old_hashtable = 0,
      expanding = False, expand_bucket = 0, hash_bulk_move = 1,
      maintenance_lock = False, arrays = [10 \<mapsto> [2, 1]], items = ex_mem\<rparr>"

text \<open>The same table in the middle of its expansion to four buckets at address 11:
  old bucket 0 has been moved, old bucket 1 not yet.\<close>

definition ex_expanding :: assoc_state where
  "ex_expanding =
     \<lparr>hashpower = 2, primary_hashtable = 11, old_hashtable = 10,
      expanding = True, expand_bucket = 1, hash_bulk_move = 1,
      maintenance_lock = False, arrays = [10 \<mapsto> [0, 1], 11 \<mapsto> [0, 0, 2, 0]],
      items = ex_mem\<rparr>"

text \<open>The table that \<open>assoc_init\<close> leaves with two buckets at address 10, and the
  same table after the items 1 and 5 have been inserted, in this order: both are in
  bucket 1, item 5 first.\<close>

definition ex_empty :: assoc_state where
  "ex_empty =
     \<lparr>hashpower = 1, primary_hashtable = 10, old_hashtable = 0,
      expanding = False, expand_bucket = 0, hash_bulk_move = 1,
      maintenance_lock = False, arrays = [10 \<mapsto> [0, 0]], items = ex_mem\<rparr>"

definition ex_two :: assoc_state where
  "ex_two =
     \<lparr>hashpower = 1, primary_hashtable = 10, old_hashtable = 0,
      expanding = False, expand_bucket = 0, hash_bulk_move = 1,
      maintenance_lock = False, arrays = [10 \<mapsto> [0, 5]],
      items = ex_mem(1 := \<lparr>ITEM_key = ''a'', h_next = 0\<rparr>,
                     5 := \<lparr>ITEM_key = ''e'', h_next = 1\<rparr>)\<rparr>"

text \<open>The stable table \<open>ex_stable\<close> after item 4 has been inserted, then after
  \<open>assoc_expand\<close> with a new array at address 11, then after old bucket 0 has been
  moved, and then after the key d has been deleted.\<close>

definition ex_inserted :: assoc_state where
  "ex_inserted =
     \<lparr>hashpower = 1, primary_hashtable = 10, old_hashtable = 0,
      expanding = False, expand_bucket = 0, hash_bulk_move = 1,
      maintenance_lock = False, arrays = [10 \<mapsto> [4, 1]],
      items = ex_mem(4 := \<lparr>ITEM_key = ''d'', h_next = 2\<rparr>)\<rparr>"

definition ex_started :: assoc_state where
  "ex_started =
     \<lparr>hashpower = 2, primary_hashtable = 11, old_hashtable = 10,
      expanding = True, expand_bucket = 0, hash_bulk_move = 1,
      maintenance_lock = False, arrays = [10 \<mapsto> [4, 1], 11 \<mapsto> [0, 0, 0, 0]],
      items = ex_mem(4 := \<lparr>ITEM_key = ''d'', h_next = 2\<rparr>)\<rparr>"

definition ex_moved :: assoc_state where
  "ex_moved =
     \<lparr>hashpower = 2, primary_hashtable = 11, old_hashtable = 10,
      expanding = True, expand_bucket = 1, hash_bulk_move = 1,
      maintenance_lock = False, arrays = [11 \<mapsto> [4, 0, 2, 0], 10 \<mapsto> [0, 1]],
      items = ex_mem(4 := \<lparr>ITEM_key = ''d'', h_next = 0\<rparr>,
                     2 := \<lparr>ITEM_key = ''b'', h_next = 0\<rparr>)\<rparr>"

definition ex_deleted :: assoc_state where
  "ex_deleted =
     \<lparr>hashpower = 2, primary_hashtable = 11, old_hashtable = 10,
      expanding = True, expand_bucket = 1, hash_bulk_move = 1,
      maintenance_lock = False, arrays = [10 \<mapsto> [0, 1], 11 \<mapsto> [0, 0, 2, 0]],
      items = ex_mem(2 := \<lparr>ITEM_key = ''b'', h_next = 0\<rparr>,
                     4 := \<lparr>ITEM_key = ''d'', h_next = 0\<rparr>)\<rparr>"

section \<open>Arithmetic of the masks\<close>

lemma pow2_lt_64: "n < 64 \<Longrightarrow> (2::nat) ^ n < 2 ^ 64"
  by (rule power_strict_increasing) simp_all

lemma hashsize_pow: "n < 64 \<Longrightarrow> hashsize n = 2 ^ n"
  unfolding hashsize_def by (rule mod_less) (rule pow2_lt_64)

lemma hashmask_pow: "n < 64 \<Longrightarrow> hashmask n = 2 ^ n - 1"
proof -
  assume n: "n < 64"
  have a: "(1::nat) \<le> 2 ^ n" by simp
  have b: "(2::nat) ^ n < 2 ^ 64" using n by (rule pow2_lt_64)
  have "((2::nat) ^ n + 2 ^ 64 - 1) = (2 ^ n - 1) + 2 ^ 64" using a by linarith
  then have "((2::nat) ^ n + 2 ^ 64 - 1) mod 2 ^ 64 = (2 ^ n - 1) mod 2 ^ 64"
    by (simp only: mod_add_self2)
  also have "\<dots> = 2 ^ n - 1" using b by (intro mod_less) linarith
  finally show ?thesis using n by (simp only: hashmask_def hashsize_pow)
qed

lemma and_hashmask: "n < 64 \<Longrightarrow> x AND hashmask n = x mod 2 ^ n"
  by (simp only: hashmask_pow take_bit_eq_mod [symmetric] take_bit_eq_mask mask_eq_exp_minus_1)


lemma hashpower_pred_pos: "0 < n \<Longrightarrow> n < 64 \<Longrightarrow> hashpower_pred n = n - 1"
proof -
  assume n: "0 < n" "n < 64"
  have "n + 2 ^ 32 - 1 = (n - 1) + 2 ^ 32" using n by linarith
  then have "(n + 2 ^ 32 - 1) mod 2 ^ 32 = (n - 1) mod 2 ^ 32"
    by (simp only: mod_add_self2)
  also have "\<dots> = n - 1" using n by (intro mod_less) simp
  finally show ?thesis by (simp only: hashpower_pred_def)
qed

lemma unat32_mod: "unat (hv :: 32 word) mod 2 ^ n mod 2 ^ 32 = unat hv mod 2 ^ n"
proof -
  have "unat hv < 2 ^ 32" using unsigned_less [of hv] by simp
  moreover have "unat hv mod 2 ^ n \<le> unat hv" by (rule mod_less_eq_dividend)
  ultimately show ?thesis by (intro mod_less) linarith
qed

text \<open>The three functions compute the same slot, whatever the state: the cut to 32 bits
  in \<open>assoc_find\<close> changes nothing, since \<open>hv & m\<close> is at most \<open>hv\<close>.\<close>

lemma nat_and_le: "(x::nat) AND y \<le> x"
  by (simp add: and_nat_def nat_le_iff AND_upper1)

lemma find_slot_eq: "assoc_find_slot st hv = hashitem_before_slot st hv"
proof -
  have "unat hv < 2 ^ 32" using unsigned_less [of hv] by simp
  then have "unat hv AND hashmask (hashpower_pred (hashpower st)) < 2 ^ 32"
    using nat_and_le [of "unat hv" "hashmask (hashpower_pred (hashpower st))"] by simp
  then show ?thesis
    by (simp add: assoc_find_slot_def hashitem_before_slot_def)
qed

lemma before_slot_eq: "hashitem_before_slot st hv = assoc_insert_slot st hv"
  by (simp add: hashitem_before_slot_def assoc_insert_slot_def)

section \<open>Chains, buckets and the invariant\<close>

lemma table_invI:
  assumes "hashpower st < 64" "primary_hashtable st \<noteq> 0"
    "length pcs = 2 ^ hashpower st"
    "buckets_ok st (primary_hashtable st) pcs"
    "placed hash (items st) (hashpower st) pcs"
    "distinct (concat (pcs @ ocs))"
    "distinct (map (\<lambda>p. ITEM_key (items st p)) (concat (pcs @ ocs)))"
    "expanding st \<Longrightarrow> exp_inv hash st pcs ocs"
    "\<not> expanding st \<Longrightarrow> ocs = []"
  shows "table_inv hash st pcs ocs"
proof -
  have "if expanding st then exp_inv hash st pcs ocs else ocs = []"
    using assms(8,9) by (cases "expanding st") simp_all
  with assms(1-7) show ?thesis unfolding table_inv_def by (intro conjI)
qed

lemma table_invD:
  assumes "table_inv hash st pcs ocs"
  shows "hashpower st < 64" "primary_hashtable st \<noteq> 0"
    "length pcs = 2 ^ hashpower st"
    "buckets_ok st (primary_hashtable st) pcs"
    "placed hash (items st) (hashpower st) pcs"
    "distinct (concat (pcs @ ocs))"
    "distinct (map (\<lambda>p. ITEM_key (items st p)) (concat (pcs @ ocs)))"
    "expanding st \<Longrightarrow> exp_inv hash st pcs ocs"
    "\<not> expanding st \<Longrightarrow> ocs = []"
  using assms unfolding table_inv_def by (cases "expanding st"; simp)+

lemma exp_invD:
  assumes "exp_inv hash st pcs ocs"
  shows "0 < hashpower st" "old_hashtable st \<noteq> 0"
    "old_hashtable st \<noteq> primary_hashtable st"
    "expand_bucket st < 2 ^ (hashpower st - 1)"
    "length ocs = 2 ^ (hashpower st - 1)"
    "buckets_ok st (old_hashtable st) ocs"
    "placed hash (items st) (hashpower st - 1) ocs"
    "\<And>j. j < length ocs \<Longrightarrow> j < expand_bucket st \<Longrightarrow> ocs ! j = []"
    "\<And>i. i < length pcs \<Longrightarrow> expand_bucket st \<le> i mod 2 ^ (hashpower st - 1) \<Longrightarrow> pcs ! i = []"
  using assms unfolding exp_inv_def by blast+

lemma exp_invI:
  assumes "0 < hashpower st" "old_hashtable st \<noteq> 0"
    "old_hashtable st \<noteq> primary_hashtable st"
    "expand_bucket st < 2 ^ (hashpower st - 1)"
    "length ocs = 2 ^ (hashpower st - 1)"
    "buckets_ok st (old_hashtable st) ocs"
    "placed hash (items st) (hashpower st - 1) ocs"
    "\<And>j. j < length ocs \<Longrightarrow> j < expand_bucket st \<Longrightarrow> ocs ! j = []"
    "\<And>i. i < length pcs \<Longrightarrow> expand_bucket st \<le> i mod 2 ^ (hashpower st - 1) \<Longrightarrow> pcs ! i = []"
  shows "exp_inv hash st pcs ocs"
  using assms unfolding exp_inv_def by blast

lemma concat_replicate_Nil: "concat (replicate k ([]::'a list)) = []"
  by (induction k) simp_all

lemma key_match_iff:
  "(length key = nkey i \<and> memcmp_eq key (ITEM_key i) (length key)) \<longleftrightarrow> key = ITEM_key i"
  by (auto simp: nkey_def memcmp_eq_def)

lemma chain_null [simp]: "chain mem 0 ps \<longleftrightarrow> ps = []"
  by (cases ps) auto

lemma chain_unique: "chain mem p ps \<Longrightarrow> chain mem p qs \<Longrightarrow> ps = qs"
proof (induction ps arbitrary: p qs)
  case Nil
  then show ?case by simp
next
  case (Cons x xs)
  then show ?case by (cases qs) auto
qed

lemma chain_zero_notin: "chain mem p ps \<Longrightarrow> 0 \<notin> set ps"
  by (induction ps arbitrary: p) auto

lemma chain_update_other:
  "a \<notin> set ps \<Longrightarrow> chain (mem(a := v)) p ps = chain mem p ps"
  by (induction ps arbitrary: p) auto

lemma chain_append:
  "chain mem p (xs @ ys) \<Longrightarrow> \<exists>q. chain mem q ys"
  by (induction xs arbitrary: p) auto

lemma chain_head_notin_tail:
  assumes "chain mem (h_next (mem a)) ps"
  shows "a \<notin> set ps"
proof
  assume "a \<in> set ps"
  then obtain xs ys where ps: "ps = xs @ a # ys" by (auto simp: in_set_conv_decomp)
  have "\<And>p. chain mem p (xs @ a # ys) \<Longrightarrow> chain mem (h_next (mem a)) ys"
    by (induction xs) auto
  with assms ps have "chain mem (h_next (mem a)) ys" by blast
  with assms have "ps = ys" by (rule chain_unique)
  with ps show False by simp
qed

lemma chain_distinct: "chain mem p ps \<Longrightarrow> distinct ps"
  by (induction ps arbitrary: p) (auto dest: chain_head_notin_tail)

lemma first_match_Nil [simp]: "first_match mem key [] = 0"
  by (simp add: first_match_def)

lemma first_match_Cons [simp]:
  "first_match mem key (p # ps) =
     (if ITEM_key (mem p) = key then p else first_match mem key ps)"
  by (simp add: first_match_def)

lemma find_loop_chain:
  "chain mem p ps \<Longrightarrow> find_loop mem key p = Some (first_match mem key ps)"
proof (induction ps arbitrary: p)
  case Nil
  then show ?case by (subst find_loop.simps) simp
next
  case (Cons x xs)
  then show ?case
    by (subst find_loop.simps) (auto simp: key_match_iff)
qed

lemma first_match_only:
  "p \<in> set ps \<Longrightarrow> ITEM_key (mem p) = key \<Longrightarrow>
   (\<And>q. q \<in> set ps \<Longrightarrow> ITEM_key (mem q) = key \<Longrightarrow> q = p) \<Longrightarrow>
   first_match mem key ps = p"
proof (induction ps)
  case Nil
  then show ?case by simp
next
  case (Cons x xs)
  show ?case
  proof (cases "ITEM_key (mem x) = key")
    case True
    then have "x = p" using Cons.prems(3) [of x] by simp
    with True show ?thesis by simp
  next
    case False
    with Cons.prems(1,2) have "p \<in> set xs" by auto
    then have "first_match mem key xs = p"
      using Cons.prems(2,3) by (intro Cons.IH) simp_all
    with False show ?thesis by simp
  qed
qed

lemma first_match_none:
  "(\<And>q. q \<in> set ps \<Longrightarrow> ITEM_key (mem q) \<noteq> key) \<Longrightarrow> first_match mem key ps = 0"
  by (induction ps) auto

lemma first_match_in:
  "first_match mem key ps \<noteq> 0 \<Longrightarrow>
   first_match mem key ps \<in> set ps \<and> ITEM_key (mem (first_match mem key ps)) = key"
  by (induction ps) (auto split: if_splits)

lemma buckets_ok_get:
  assumes "buckets_ok st a cs" "i < length cs"
  shows "\<exists>h. link_get st (Slot a i) = Some h \<and> chain (items st) h (cs ! i)"
proof -
  from assms(1) obtain heads where a: "arrays st a = Some heads"
    and l: "list_all2 (chain (items st)) heads cs"
    by (auto simp: buckets_ok_def split: option.splits)
  from l have "length heads = length cs" by (rule list_all2_lengthD)
  moreover from l assms(2) have "chain (items st) (heads ! i) (cs ! i)"
    by (simp add: list_all2_conv_all_nth)
  ultimately show ?thesis using a assms(2) by (simp add: link_get_def)
qed

lemma slots_inv:
  assumes "hashpower st < 64" "expanding st \<longrightarrow> 0 < hashpower st"
  shows "assoc_find_slot st hv = the_slot st hv"
    and "hashitem_before_slot st hv = the_slot st hv"
    and "assoc_insert_slot st hv = the_slot st hv"
proof -
  have m: "\<And>x. x AND hashmask (hashpower st) = x mod 2 ^ hashpower st"
    using assms(1) by (rule and_hashmask)
  have m1: "expanding st \<Longrightarrow>
      x AND hashmask (hashpower_pred (hashpower st)) = x mod 2 ^ (hashpower st - 1)" for x
    using assms by (simp add: hashpower_pred_pos and_hashmask)
  show "assoc_find_slot st hv = the_slot st hv"
    by (cases "expanding st")
      (simp_all add: assoc_find_slot_def the_slot_def in_old_def Let_def m m1 unat32_mod [simplified])
  show "hashitem_before_slot st hv = the_slot st hv"
    by (cases "expanding st")
      (simp_all add: hashitem_before_slot_def the_slot_def in_old_def Let_def m m1)
  show "assoc_insert_slot st hv = the_slot st hv"
    by (cases "expanding st")
      (simp_all add: assoc_insert_slot_def the_slot_def in_old_def Let_def m m1)
qed

lemma inv_slots:
  assumes "table_inv hash st pcs ocs"
  shows "assoc_find_slot st hv = the_slot st hv"
    and "hashitem_before_slot st hv = the_slot st hv"
    and "assoc_insert_slot st hv = the_slot st hv"
proof -
  from table_invD(1,8) [OF assms] have "hashpower st < 64" "expanding st \<longrightarrow> 0 < hashpower st"
    by (auto dest: exp_invD(1))
  then show "assoc_find_slot st hv = the_slot st hv"
    and "hashitem_before_slot st hv = the_slot st hv"
    and "assoc_insert_slot st hv = the_slot st hv"
    by (rule slots_inv)+
qed

lemma the_chain_index:
  assumes "table_inv hash st pcs ocs"
  shows "if in_old st hv
         then unat hv mod 2 ^ (hashpower st - 1) < length ocs
              \<and> buckets_ok st (old_hashtable st) ocs
         else unat hv mod 2 ^ hashpower st < length pcs
              \<and> buckets_ok st (primary_hashtable st) pcs"
proof (cases "in_old st hv")
  case True
  then have "expanding st" by (simp add: in_old_def)
  then have "exp_inv hash st pcs ocs" by (rule table_invD(8) [OF assms])
  then have "buckets_ok st (old_hashtable st) ocs"
    and "length ocs = 2 ^ (hashpower st - 1)"
    by (rule exp_invD)+
  then show ?thesis using True by simp
next
  case False
  from assms have "buckets_ok st (primary_hashtable st) pcs"
    and "length pcs = 2 ^ hashpower st"
    by (simp_all add: table_inv_def)
  then show ?thesis using False by simp
qed

lemma the_slot_chain:
  assumes "table_inv hash st pcs ocs"
  shows "\<exists>h. link_get st (the_slot st hv) = Some h \<and> chain (items st) h (the_chain st pcs ocs hv)"
proof (cases "in_old st hv")
  case True
  with the_chain_index [OF assms, of hv]
  have "unat hv mod 2 ^ (hashpower st - 1) < length ocs"
    and "buckets_ok st (old_hashtable st) ocs" by simp_all
  from buckets_ok_get [OF this(2) this(1)] True show ?thesis
    by (simp only: the_slot_def the_chain_def if_True)
next
  case False
  with the_chain_index [OF assms, of hv]
  have "unat hv mod 2 ^ hashpower st < length pcs"
    and "buckets_ok st (primary_hashtable st) pcs" by simp_all
  from buckets_ok_get [OF this(2) this(1)] False show ?thesis
    by (simp only: the_slot_def the_chain_def if_False)
qed

lemma the_chain_subset:
  assumes "table_inv hash st pcs ocs"
  shows "set (the_chain st pcs ocs hv) \<subseteq> set (concat (pcs @ ocs))"
proof (cases "in_old st hv")
  case True
  with the_chain_index [OF assms, of hv]
  have "ocs ! (unat hv mod 2 ^ (hashpower st - 1)) \<in> set ocs" by simp
  then show ?thesis using True by (auto simp: the_chain_def)
next
  case False
  with the_chain_index [OF assms, of hv]
  have "pcs ! (unat hv mod 2 ^ hashpower st) \<in> set pcs" by simp
  then show ?thesis using False by (auto simp: the_chain_def)
qed

text \<open>An item of the table is in the chain of the bucket of its key's hash.\<close>

lemma member_in_the_chain:
  assumes inv: "table_inv hash st pcs ocs"
    and p: "p \<in> set (concat (pcs @ ocs))"
  shows "p \<in> set (the_chain st pcs ocs (hash (ITEM_key (items st p))))"
proof -
  let ?hv = "hash (ITEM_key (items st p))"
  let ?n = "hashpower st"
  have mm: "unat ?hv mod 2 ^ ?n mod 2 ^ (?n - 1) = unat ?hv mod 2 ^ (?n - 1)"
    by (rule mod_mod_cancel) (simp add: le_imp_power_dvd)
  from p obtain c where c: "c \<in> set pcs \<or> c \<in> set ocs" "p \<in> set c" by auto
  from c(1) show ?thesis
  proof
    assume "c \<in> set pcs"
    then obtain i where il: "i < length pcs" and ic: "pcs ! i = c"
      by (auto simp: in_set_conv_nth)
    with inv c(2) have i: "unat ?hv mod 2 ^ ?n = i"
      by (simp add: table_inv_def placed_def)
    have "\<not> in_old st ?hv"
    proof
      assume "in_old st ?hv"
      then have e: "expanding st" "expand_bucket st \<le> i mod 2 ^ (?n - 1)"
        using i mm by (simp_all add: in_old_def)
      from exp_invD(9) [OF table_invD(8) [OF inv e(1)] il e(2)] have "pcs ! i = []" .
      with ic c(2) show False by simp
    qed
    with i ic c(2) show ?thesis by (simp add: the_chain_def)
  next
    assume "c \<in> set ocs"
    then obtain j where jl: "j < length ocs" and jc: "ocs ! j = c"
      by (auto simp: in_set_conv_nth)
    have e: "expanding st"
    proof (rule ccontr)
      assume "\<not> expanding st"
      then have "ocs = []" by (rule table_invD(9) [OF inv])
      with jl show False by simp
    qed
    note x = table_invD(8) [OF inv e]
    from exp_invD(7) [OF x] jl jc c(2) have j: "unat ?hv mod 2 ^ (?n - 1) = j"
      by (simp add: placed_def)
    have "expand_bucket st \<le> j"
    proof (rule ccontr)
      assume "\<not> expand_bucket st \<le> j"
      with exp_invD(8) [OF x jl] have "ocs ! j = []" by simp
      with jc c(2) show False by simp
    qed
    with e j jc c(2) show ?thesis by (simp add: the_chain_def in_old_def)
  qed
qed

lemma inv_keys_inj:
  "table_inv hash st pcs ocs \<Longrightarrow>
   inj_on (\<lambda>p. ITEM_key (items st p)) (set (concat (pcs @ ocs)))"
proof -
  assume "table_inv hash st pcs ocs"
  then have "distinct (map (\<lambda>p. ITEM_key (items st p)) (concat (pcs @ ocs)))"
    unfolding table_inv_def by (elim conjE)
  then show ?thesis unfolding distinct_map by (elim conjE)
qed

lemma assoc_find_the_chain:
  assumes "table_inv hash st pcs ocs"
  shows "assoc_find st key hv = Some (first_match (items st) key (the_chain st pcs ocs hv))"
proof -
  from the_slot_chain [OF assms, of hv] obtain h where
    "link_get st (the_slot st hv) = Some h" "chain (items st) h (the_chain st pcs ocs hv)"
    by blast
  then show ?thesis
    using find_loop_chain [of "items st" h "the_chain st pcs ocs hv" key]
    by (simp add: assoc_find_def inv_slots [OF assms])
qed

lemma assoc_find_member:
  assumes inv: "table_inv hash st pcs ocs"
    and p: "p \<in> set (concat (pcs @ ocs))"
  shows "assoc_find st (ITEM_key (items st p)) (hash (ITEM_key (items st p))) = Some p"
proof -
  let ?key = "ITEM_key (items st p)"
  let ?c = "the_chain st pcs ocs (hash ?key)"
  have a: "p \<in> set ?c" using inv p by (rule member_in_the_chain)
  have b: "q = p" if "q \<in> set ?c" "ITEM_key (items st q) = ?key" for q
  proof -
    from that(1) the_chain_subset [OF inv] have "q \<in> set (concat (pcs @ ocs))" by blast
    with that(2) p inv_keys_inj [OF inv] show ?thesis by (auto dest: inj_onD)
  qed
  have "first_match (items st) ?key ?c = p"
    using a refl b by (rule first_match_only)
  then show ?thesis by (simp add: assoc_find_the_chain [OF inv])
qed

lemma assoc_find_absent:
  assumes inv: "table_inv hash st pcs ocs"
    and k: "\<And>q. q \<in> set (concat (pcs @ ocs)) \<Longrightarrow> ITEM_key (items st q) \<noteq> key"
  shows "assoc_find st key hv = Some 0"
proof -
  have "first_match (items st) key (the_chain st pcs ocs hv) = 0"
    using the_chain_subset [OF inv, of hv] k by (intro first_match_none) blast
  then show ?thesis by (simp add: assoc_find_the_chain [OF inv])
qed

lemma chains_frame:
  "list_all2 (chain mem) heads cs \<Longrightarrow> p \<notin> set (concat cs) \<Longrightarrow>
   list_all2 (chain (mem(p := v))) heads cs"
  by (induction heads cs rule: list_all2_induct) (simp_all add: chain_update_other)

lemma push_chains:
  assumes "list_all2 (chain mem) heads cs" "p \<noteq> 0" "p \<notin> set (concat cs)" "b < length heads"
  shows "list_all2 (chain (mem(p := (mem p)\<lparr>h_next := heads ! b\<rparr>)))
           (heads[b := p]) (cs[b := p # cs ! b])"
proof -
  let ?mem = "mem(p := (mem p)\<lparr>h_next := heads ! b\<rparr>)"
  have l: "length heads = length cs" using assms(1) by (rule list_all2_lengthD)
  have f: "list_all2 (chain ?mem) heads cs" using assms(1,3) by (rule chains_frame)
  then have "chain ?mem (heads ! b) (cs ! b)"
    using assms(4) l by (simp add: list_all2_conv_all_nth)
  then have "chain ?mem p (p # cs ! b)" using assms(2) by simp
  with f show ?thesis using assms(4) l by (simp add: list_all2_update_cong)
qed

lemma mset_concat_update:
  assumes "i < length cs"
  shows "mset (concat (cs[i := c])) + mset (cs ! i) = mset (concat cs) + mset c"
proof -
  have a: "cs = take i cs @ cs ! i # drop (Suc i) cs" using assms by (rule id_take_nth_drop)
  have b: "cs[i := c] = take i cs @ c # drop (Suc i) cs" using assms by (rule upd_conv_take_nth_drop)
  have "mset (concat cs) = mset (concat (take i cs)) + mset (cs ! i) + mset (concat (drop (Suc i) cs))"
    by (subst a) simp
  moreover have "mset (concat (cs[i := c]))
      = mset (concat (take i cs)) + mset c + mset (concat (drop (Suc i) cs))"
    by (subst b) simp
  ultimately show ?thesis by simp
qed

lemma mset_concat_push:
  "i < length cs \<Longrightarrow> mset (concat (cs[i := x # cs ! i])) = add_mset x (mset (concat cs))"
  using mset_concat_update [of i cs "x # cs ! i"] by simp

lemma set_concat_push:
  "i < length cs \<Longrightarrow> set (concat (cs[i := x # cs ! i])) = insert x (set (concat cs))"
  using mset_concat_push [of i cs x, THEN arg_cong, of set_mset] by simp

lemma placed_keys:
  "(\<And>q. ITEM_key (mem' q) = ITEM_key (mem q)) \<Longrightarrow> placed hash mem' n cs = placed hash mem n cs"
  by (simp add: placed_def)

lemma placed_push:
  assumes "placed hash mem n cs" "i < length cs" "unat (hash (ITEM_key (mem x))) mod 2 ^ n = i"
  shows "placed hash mem n (cs[i := x # cs ! i])"
  unfolding placed_def
proof (intro allI impI ballI)
  fix k p assume k: "k < length (cs[i := x # cs ! i])" and p: "p \<in> set (cs[i := x # cs ! i] ! k)"
  show "unat (hash (ITEM_key (mem p))) mod 2 ^ n = k"
  proof (cases "k = i")
    case True
    with p assms(2) have "p = x \<or> p \<in> set (cs ! i)" by simp
    then show ?thesis using assms True by (auto simp: placed_def)
  next
    case False
    with p k assms(1) show ?thesis by (simp add: placed_def)
  qed
qed

lemma distinct_add_mset:
  assumes "mset xs' = add_mset x (mset xs)" "distinct (map f xs)" "f x \<notin> f ` set xs"
  shows "distinct (map f xs')"
proof -
  have "image_mset f (mset xs') = image_mset f (add_mset x (mset xs))"
    using assms(1) by (rule arg_cong)
  then have "mset (map f xs') = mset (map f (x # xs))"
    by simp
  then have "distinct (map f xs') = distinct (map f (x # xs))"
    by (rule mset_eq_imp_distinct_iff)
  with assms(2,3) show ?thesis by simp
qed

lemma buckets_ok_other:
  assumes "buckets_ok st b cs" "a \<noteq> b" "p \<notin> set (concat cs)"
  shows "buckets_ok (st\<lparr>items := (items st)(p := v), arrays := (arrays st)(a \<mapsto> xs)\<rparr>) b cs"
  using assms by (auto simp: buckets_ok_def chains_frame split: option.splits)

lemma length_push [simp]: "length (push cs i x) = length cs"
  by (simp add: push_def)

lemma nth_push: "k < length cs \<Longrightarrow> push cs i x ! k = (if k = i then x # cs ! i else cs ! k)"
  by (simp add: push_def)

lemma buckets_ok_push:
  assumes ok: "buckets_ok st a cs" and i: "i < length cs" and p: "p \<noteq> 0" "p \<notin> set (concat cs)"
    and h: "link_get st (Slot a i) = Some head"
  shows "link_set (st\<lparr>items := (items st)(p := (items st p)\<lparr>h_next := head\<rparr>)\<rparr>) (Slot a i) p
       = Some (st\<lparr>items := (items st)(p := (items st p)\<lparr>h_next := head\<rparr>),
                  arrays := (arrays st)(a \<mapsto> (the (arrays st a))[i := p])\<rparr>)"
    and "buckets_ok (st\<lparr>items := (items st)(p := (items st p)\<lparr>h_next := head\<rparr>),
                  arrays := (arrays st)(a \<mapsto> (the (arrays st a))[i := p])\<rparr>) a (push cs i p)"
proof -
  from ok obtain heads where a: "arrays st a = Some heads"
    and l: "list_all2 (chain (items st)) heads cs"
    by (auto simp: buckets_ok_def split: option.splits)
  have len: "length heads = length cs" using l by (rule list_all2_lengthD)
  from h a i len have hd: "head = heads ! i" by (simp add: link_get_def)
  show "link_set (st\<lparr>items := (items st)(p := (items st p)\<lparr>h_next := head\<rparr>)\<rparr>) (Slot a i) p
       = Some (st\<lparr>items := (items st)(p := (items st p)\<lparr>h_next := head\<rparr>),
                  arrays := (arrays st)(a \<mapsto> (the (arrays st a))[i := p])\<rparr>)"
    using a i len by (simp add: link_set_def)
  from push_chains [OF l p] i len hd
  show "buckets_ok (st\<lparr>items := (items st)(p := (items st p)\<lparr>h_next := head\<rparr>),
                  arrays := (arrays st)(a \<mapsto> (the (arrays st a))[i := p])\<rparr>) a (push cs i p)"
    by (simp add: buckets_ok_def a push_def)
qed

lemma mset_concat_push2:
  "i < length cs \<Longrightarrow> mset (concat (push cs i x)) = add_mset x (mset (concat cs))"
  by (simp add: push_def mset_concat_push)

lemma set_concat_push2:
  "i < length cs \<Longrightarrow> set (concat (push cs i x)) = insert x (set (concat cs))"
  unfolding push_def by (rule set_concat_push)

lemma keys_h_next_update:
  "(\<lambda>q. ITEM_key (((mem(p := (mem p)\<lparr>h_next := v\<rparr>)) q))) = (\<lambda>q. ITEM_key (mem q))"
  by (rule ext) simp

lemma mod_pow_pred: "(x::nat) mod 2 ^ n mod 2 ^ (n - 1) = x mod 2 ^ (n - 1)"
  by (rule mod_mod_cancel) (simp add: le_imp_power_dvd)

lemma insert_inv:
  assumes inv: "table_inv hash st pcs ocs"
    and p0: "p \<noteq> 0" and fresh: "p \<notin> set (concat (pcs @ ocs))"
    and newkey: "ITEM_key (items st p) \<notin> (\<lambda>q. ITEM_key (items st q)) ` set (concat (pcs @ ocs))"
    and hv: "hv = hash (ITEM_key (items st p))"
  shows "\<exists>st'. assoc_insert st p hv = Some st'
           \<and> table_inv hash st' (fst (insert_chains st hv p pcs ocs)) (snd (insert_chains st hv p pcs ocs))
           \<and> (\<lambda>q. ITEM_key (items st' q)) = (\<lambda>q. ITEM_key (items st q))
           \<and> hashpower st' = hashpower st \<and> expanding st' = expanding st
           \<and> expand_bucket st' = expand_bucket st
           \<and> primary_hashtable st' = primary_hashtable st
           \<and> old_hashtable st' = old_hashtable st
           \<and> hash_bulk_move st' = hash_bulk_move st
           \<and> maintenance_lock st' = maintenance_lock st"
proof -
  let ?n = "hashpower st"
  let ?mem = "items st"
  note slot = inv_slots(3) [OF inv, of hv]
  note basics = table_invD [OF inv]
  have pn: "p \<notin> set (concat ocs)" "p \<notin> set (concat pcs)" using fresh by simp_all
  show ?thesis
  proof (cases "in_old st hv")
    case True
    then have e: "expanding st" and ge: "expand_bucket st \<le> unat hv mod 2 ^ (?n - 1)"
      by (simp_all add: in_old_def)
    let ?j = "unat hv mod 2 ^ (?n - 1)"
    note x = exp_invD [OF basics(8) [OF e]]
    have j: "?j < length ocs" using x(5) by simp
    note ok = x(6)
    from buckets_ok_get [OF ok j] obtain head where
      head: "link_get st (Slot (old_hashtable st) ?j) = Some head" by blast
    define st' where "st' = st\<lparr>items := (items st)(p := (items st p)\<lparr>h_next := head\<rparr>),
                  arrays := (arrays st)(old_hashtable st \<mapsto> (the (arrays st (old_hashtable st)))[?j := p])\<rparr>"
    note bp = buckets_ok_push [OF ok j p0 pn(1) head, folded st'_def]
    have sc: "hashpower st' = ?n" "expanding st' = expanding st" "expand_bucket st' = expand_bucket st"
      "primary_hashtable st' = primary_hashtable st" "old_hashtable st' = old_hashtable st"
      "hash_bulk_move st' = hash_bulk_move st" "maintenance_lock st' = maintenance_lock st"
      by (simp_all add: st'_def)
    have keys: "(\<lambda>q. ITEM_key (items st' q)) = (\<lambda>q. ITEM_key (?mem q))"
      by (rule ext) (simp add: st'_def)
    have pk: "placed hash (items st') k cs = placed hash ?mem k cs" for k cs
      by (rule placed_keys) (simp add: st'_def)
    have ins: "assoc_insert st p hv = Some st'"
      using True head bp(1) by (simp add: assoc_insert_def slot the_slot_def)
    have ch: "insert_chains st hv p pcs ocs = (pcs, push ocs ?j p)"
      using True by (simp add: insert_chains_def)
    have m: "mset (concat (pcs @ push ocs ?j p)) = add_mset p (mset (concat (pcs @ ocs)))"
      using j by (simp add: mset_concat_push2)
    have d1: "distinct (concat (pcs @ push ocs ?j p))"
      using distinct_add_mset [OF m, of id] basics(6) fresh by simp
    have d2: "distinct (map (\<lambda>q. ITEM_key (items st' q)) (concat (pcs @ push ocs ?j p)))"
      unfolding keys using m basics(7) newkey by (rule distinct_add_mset)
    have b1: "buckets_ok st' (primary_hashtable st') pcs"
      unfolding st'_def using basics(4) x(3) pn(2) by (intro buckets_ok_other) simp_all
    have pl: "placed hash ?mem (?n - 1) (push ocs ?j p)"
      unfolding push_def using x(7) j hv by (intro placed_push) simp_all
    have em: "push ocs ?j p ! k = []" if "k < length (push ocs ?j p)" "k < expand_bucket st'" for k
      using that x(8) [of k] ge by (simp add: nth_push sc)
    have ex: "exp_inv hash st' pcs (push ocs ?j p)"
      using x(1-4) x(5) bp(2) pl em x(9)
      by (intro exp_invI) (simp_all add: sc pk)
    have "table_inv hash st' pcs (push ocs ?j p)"
      using basics(1-3) b1 basics(5) d1 d2 ex e
      by (intro table_invI) (simp_all add: sc pk)
    with ins ch keys sc show ?thesis by simp
  next
    case False
    let ?i = "unat hv mod 2 ^ ?n"
    have i: "?i < length pcs" using basics(3) by simp
    note ok = basics(4)
    from buckets_ok_get [OF ok i] obtain head where
      head: "link_get st (Slot (primary_hashtable st) ?i) = Some head" by blast
    define st' where "st' = st\<lparr>items := (items st)(p := (items st p)\<lparr>h_next := head\<rparr>),
                  arrays := (arrays st)(primary_hashtable st \<mapsto> (the (arrays st (primary_hashtable st)))[?i := p])\<rparr>"
    note bp = buckets_ok_push [OF ok i p0 pn(2) head, folded st'_def]
    have sc: "hashpower st' = ?n" "expanding st' = expanding st" "expand_bucket st' = expand_bucket st"
      "primary_hashtable st' = primary_hashtable st" "old_hashtable st' = old_hashtable st"
      "hash_bulk_move st' = hash_bulk_move st" "maintenance_lock st' = maintenance_lock st"
      by (simp_all add: st'_def)
    have keys: "(\<lambda>q. ITEM_key (items st' q)) = (\<lambda>q. ITEM_key (?mem q))"
      by (rule ext) (simp add: st'_def)
    have pk: "placed hash (items st') k cs = placed hash ?mem k cs" for k cs
      by (rule placed_keys) (simp add: st'_def)
    have ins: "assoc_insert st p hv = Some st'"
      using False head bp(1) by (simp add: assoc_insert_def slot the_slot_def)
    have ch: "insert_chains st hv p pcs ocs = (push pcs ?i p, ocs)"
      using False by (simp add: insert_chains_def)
    have m: "mset (concat (push pcs ?i p @ ocs)) = add_mset p (mset (concat (pcs @ ocs)))"
      using i by (simp add: mset_concat_push2)
    have d1: "distinct (concat (push pcs ?i p @ ocs))"
      using distinct_add_mset [OF m, of id] basics(6) fresh by simp
    have d2: "distinct (map (\<lambda>q. ITEM_key (items st' q)) (concat (push pcs ?i p @ ocs)))"
      unfolding keys using m basics(7) newkey by (rule distinct_add_mset)
    have pl: "placed hash ?mem ?n (push pcs ?i p)"
      unfolding push_def using basics(5) i hv by (intro placed_push) simp_all
    have ex: "exp_inv hash st' (push pcs ?i p) ocs" if e: "expanding st'"
    proof -
      from e have e': "expanding st" by (simp add: sc)
      note x = exp_invD [OF basics(8) [OF e']]
      have b1: "buckets_ok st' (old_hashtable st') ocs"
        unfolding st'_def using x(6) x(3) pn(1) by (intro buckets_ok_other) simp_all
      have lt: "\<not> expand_bucket st \<le> ?i mod 2 ^ (?n - 1)"
        using False e' mod_pow_pred [of "unat hv" ?n] by (simp add: in_old_def)
      have em: "push pcs ?i p ! k = []"
        if "k < length (push pcs ?i p)" "expand_bucket st' \<le> k mod 2 ^ (hashpower st' - 1)" for k
        using that x(9) [of k] lt by (auto simp: nth_push sc)
      show ?thesis
        using x(1-5) b1 x(7) x(8) em
        by (intro exp_invI) (simp_all add: sc pk)
    qed
    have "table_inv hash st' (push pcs ?i p) ocs"
      using basics(1-3) bp(2) pl d1 d2 ex basics(9)
      by (intro table_invI) (simp_all add: sc pk)
    with ins ch keys sc show ?thesis by simp
  qed
qed

lemma hashitem_before_loop_unfold:
  "hashitem_before_loop st key pos =
     (case link_get st pos of
        None \<Rightarrow> None
      | Some p \<Rightarrow>
          if p \<noteq> 0 \<and> ITEM_key (items st p) \<noteq> key
          then hashitem_before_loop st key (Next_of p) else Some pos)"
proof -
  have "(length key \<noteq> nkey i \<or> \<not> memcmp_eq key (ITEM_key i) (length key)) \<longleftrightarrow> ITEM_key i \<noteq> key"
    for i using key_match_iff [of key i] by blast
  then show ?thesis by (subst hashitem_before_loop.simps) (simp only:)
qed

lemma before_loop_chain:
  "link_get st pos = Some h \<Longrightarrow> chain (items st) h ps \<Longrightarrow>
   hashitem_before_loop st key pos = Some (before_link (items st) key pos ps)
   \<and> link_get st (before_link (items st) key pos ps) = Some (first_match (items st) key ps)"
proof (induction ps arbitrary: pos h)
  case Nil
  then show ?case by (subst hashitem_before_loop_unfold) simp
next
  case (Cons x xs)
  have n: "link_get st (Next_of x) = Some (h_next (items st x))" by (simp add: link_get_def)
  from Cons.prems have hx: "h = x" "x \<noteq> 0" "chain (items st) (h_next (items st x)) xs" by simp_all
  show ?case
  proof (cases "ITEM_key (items st x) = key")
    case True
    then show ?thesis using Cons.prems(1) hx
      by (subst hashitem_before_loop_unfold) simp
  next
    case False
    from Cons.IH [OF n hx(3)] False Cons.prems(1) hx show ?thesis
      by (subst hashitem_before_loop_unfold) simp
  qed
qed

lemma before_link_decomp:
  "\<forall>q \<in> set ys. ITEM_key (mem q) \<noteq> key \<Longrightarrow> ITEM_key (mem p) = key \<Longrightarrow>
   before_link mem key pos (ys @ p # zs) = (if ys = [] then pos else Next_of (last ys))
   \<and> first_match mem key (ys @ p # zs) = p"
  by (induction ys arbitrary: pos) auto

lemma chain_suffix:
  "chain mem h (ys @ p # zs) \<Longrightarrow> p \<noteq> 0 \<and> chain mem (h_next (mem p)) zs"
  by (induction ys arbitrary: h) auto

lemma splice_chain:
  assumes "chain mem h (ys @ p # zs)" "ys \<noteq> []"
  shows "chain (mem(p := v, last ys := (mem (last ys))\<lparr>h_next := h_next (mem p)\<rparr>)) h (ys @ zs)"
  using assms
proof (induction ys arbitrary: h)
  case Nil
  then show ?case by simp
next
  case (Cons y ys)
  from Cons.prems(1) have d: "distinct ((y # ys) @ p # zs)" by (rule chain_distinct)
  from Cons.prems(1) have hy: "h = y" "y \<noteq> 0" "chain mem (h_next (mem y)) (ys @ p # zs)" by simp_all
  define m where "m = mem(p := v, last (y # ys) := (mem (last (y # ys)))\<lparr>h_next := h_next (mem p)\<rparr>)"
  have "chain m (h_next (m y)) (ys @ zs)"
  proof (cases "ys = []")
    case True
    with hy have "chain mem (h_next (mem p)) zs" by simp
    moreover have "p \<notin> set zs" "y \<notin> set zs" using d by auto
    ultimately have "chain m (h_next (mem p)) zs"
      unfolding m_def using True by (simp add: chain_update_other)
    moreover have "h_next (m y) = h_next (mem p)" using True by (simp add: m_def)
    ultimately show ?thesis using True by simp
  next
    case False
    from Cons.IH [OF hy(3) False]
    have "chain m (h_next (mem y)) (ys @ zs)" unfolding m_def last_ConsR [OF False] .
    moreover have "y \<noteq> p" "y \<noteq> last ys" using d False by auto
    then have "h_next (m y) = h_next (mem y)" using False by (simp add: m_def)
    ultimately show ?thesis by simp
  qed
  then have "chain m h ((y # ys) @ zs)" using hy by simp
  then show ?case unfolding m_def .
qed

lemma hashitem_before_slot_Slot: "\<exists>a i. hashitem_before_slot st hv = Slot a i"
  by (simp add: hashitem_before_slot_def Let_def)

lemma delete_effect:
  assumes slot: "link_get st (hashitem_before_slot st hv) = Some head"
    and ch: "chain (items st) head (ys @ p # zs)"
    and nomatch: "\<forall>q \<in> set ys. ITEM_key (items st q) \<noteq> key"
    and match: "ITEM_key (items st p) = key"
  shows "assoc_delete st key hv =
     Some (Inr (if ys = []
        then (case hashitem_before_slot st hv of
                Slot a i \<Rightarrow>
                  st\<lparr>items := (items st)(p := (items st p)\<lparr>h_next := 0\<rparr>),
                     arrays := (arrays st)(a \<mapsto> (the (arrays st a))[i := h_next (items st p)])\<rparr>)
        else st\<lparr>items := (items st)(p := (items st p)\<lparr>h_next := 0\<rparr>,
                   last ys := (items st (last ys))\<lparr>h_next := h_next (items st p)\<rparr>)\<rparr>))"
proof -
  let ?pos = "hashitem_before_slot st hv"
  let ?ps = "ys @ p # zs"
  from before_loop_chain [OF slot ch, of key] before_link_decomp [OF nomatch match, of ?pos zs]
  have b: "hashitem_before st key hv = Some (if ys = [] then ?pos else Next_of (last ys))"
    and g: "link_get st (if ys = [] then ?pos else Next_of (last ys)) = Some p"
    by (simp_all add: hashitem_before_def)
  from chain_suffix [OF ch] have p0: "p \<noteq> 0" by simp
  from ch have d: "distinct (ys @ p # zs)" by (rule chain_distinct)
  show ?thesis
  proof (cases "ys = []")
    case True
    obtain a i where ai: "?pos = Slot a i" using hashitem_before_slot_Slot by blast
    from slot ai obtain xs where xs: "arrays st a = Some xs" "i < length xs"
      by (auto simp: link_get_def split: option.splits if_splits)
    show ?thesis using True b g p0 ai xs
      by (simp add: assoc_delete_def Let_def link_set_def)
  next
    case False
    then have "last ys \<in> set ys" by simp
    with d have "last ys \<noteq> p" by auto
    then show ?thesis using False b g p0
      by (simp add: assoc_delete_def Let_def link_set_def)
  qed
qed

lemma chain_cong:
  "(\<And>q. q \<in> set ps \<Longrightarrow> mem' q = mem q) \<Longrightarrow> chain mem' h ps = chain mem h ps"
  by (induction ps arbitrary: h) auto

lemma buckets_ok_frame:
  assumes "buckets_ok st a cs" "arrays st' a = arrays st a"
    "\<And>q. q \<in> set (concat cs) \<Longrightarrow> items st' q = items st q"
  shows "buckets_ok st' a cs"
proof -
  from assms(1) obtain heads where a: "arrays st a = Some heads"
    and l: "list_all2 (chain (items st)) heads cs"
    by (auto simp: buckets_ok_def split: option.splits)
  have "chain (items st') (heads ! k) (cs ! k)" if "k < length cs" for k
  proof -
    from that have "cs ! k \<in> set cs" by simp
    then have "set (cs ! k) \<subseteq> set (concat cs)" by auto
    then have "chain (items st') (heads ! k) (cs ! k) = chain (items st) (heads ! k) (cs ! k)"
      using assms(3) by (intro chain_cong) blast
    with l that show ?thesis by (simp add: list_all2_conv_all_nth)
  qed
  with l have "list_all2 (chain (items st')) heads cs"
    by (simp add: list_all2_conv_all_nth)
  with a assms(2) show ?thesis by (simp add: buckets_ok_def)
qed

lemma buckets_ok_change:
  assumes "buckets_ok st a cs" "k0 < length cs"
    "arrays st' a = Some heads'" "length heads' = length cs"
    "\<And>k. k < length cs \<Longrightarrow> k \<noteq> k0 \<Longrightarrow> heads' ! k = the (arrays st a) ! k"
    "\<And>k q. k < length cs \<Longrightarrow> k \<noteq> k0 \<Longrightarrow> q \<in> set (cs ! k) \<Longrightarrow> items st' q = items st q"
    "chain (items st') (heads' ! k0) c'"
  shows "buckets_ok st' a (cs[k0 := c'])"
proof -
  from assms(1) obtain heads where a: "arrays st a = Some heads"
    and l: "list_all2 (chain (items st)) heads cs"
    by (auto simp: buckets_ok_def split: option.splits)
  have "chain (items st') (heads' ! k) (cs[k0 := c'] ! k)" if "k < length cs" for k
  proof (cases "k = k0")
    case True
    with assms(7) that show ?thesis by simp
  next
    case False
    have "chain (items st') (heads ! k) (cs ! k) = chain (items st) (heads ! k) (cs ! k)"
      using assms(6) [OF that False] by (intro chain_cong) blast
    with l that False assms(5) [OF that False] a show ?thesis
      by (simp add: list_all2_conv_all_nth)
  qed
  then have "list_all2 (chain (items st')) heads' (cs[k0 := c'])"
    using assms(4) by (simp add: list_all2_conv_all_nth)
  with assms(3) show ?thesis by (simp add: buckets_ok_def)
qed

lemma placed_subset:
  assumes "placed hash mem n cs" "length cs' = length cs"
    "\<And>i. i < length cs \<Longrightarrow> set (cs' ! i) \<subseteq> set (cs ! i)"
  shows "placed hash mem n cs'"
  using assms unfolding placed_def by (metis subsetD)

lemma concat_map_removeAll: "concat (map (removeAll p) xss) = removeAll p (concat xss)"
  by (induction xss) simp_all

lemma removeAll_decomp:
  "distinct (ys @ p # zs) \<Longrightarrow> removeAll p (ys @ p # zs) = ys @ zs"
  by (simp add: removeAll_id)

lemma map_removeAll_update:
  assumes "k0 < length cs" "\<And>k. k < length cs \<Longrightarrow> k \<noteq> k0 \<Longrightarrow> p \<notin> set (cs ! k)"
  shows "map (removeAll p) cs = cs[k0 := removeAll p (cs ! k0)]"
proof (rule nth_equalityI)
  show "length (map (removeAll p) cs) = length (cs[k0 := removeAll p (cs ! k0)])" by simp
next
  fix k assume "k < length (map (removeAll p) cs)"
  then have k: "k < length cs" by simp
  show "map (removeAll p) cs ! k = cs[k0 := removeAll p (cs ! k0)] ! k"
  proof (cases "k = k0")
    case True
    with k show ?thesis by simp
  next
    case False
    with k assms(2) [OF k False] show ?thesis by (simp add: removeAll_id)
  qed
qed

lemma map_removeAll_id:
  "p \<notin> set (concat cs) \<Longrightarrow> map (removeAll p) cs = cs"
  by (induction cs) (simp_all add: removeAll_id)

text \<open>In a list of chains without repetition, an item is in one chain only.\<close>

lemma distinct_concat_one_chain:
  assumes "distinct (concat cs)" "k < length cs" "k' < length cs" "k \<noteq> k'"
    "q \<in> set (cs ! k)"
  shows "q \<notin> set (cs ! k')"
proof
  assume q': "q \<in> set (cs ! k')"
  have *: "False" if "i < j" "j < length cs" "q \<in> set (cs ! i)" "q \<in> set (cs ! j)" for i j
  proof -
    have "cs = take j cs @ drop j cs" by simp
    moreover have "cs ! i \<in> set (take j cs)" using that(1,2)
      by (metis in_set_conv_nth length_take less_imp_le_nat min.absorb2 nth_take)
    moreover have "cs ! j \<in> set (drop j cs)" using that(2)
      by (metis Cons_nth_drop_Suc list.set_intros(1))
    ultimately have "distinct (concat (take j cs) @ concat (drop j cs))"
      and "q \<in> set (concat (take j cs))" and "q \<in> set (concat (drop j cs))"
      using assms(1) that(3,4) by (metis concat_append, auto)
    then show False by auto
  qed
  from assms(4) consider "k < k'" | "k' < k" by linarith
  then show False using * assms(2,3,5) q' by cases blast+
qed

lemma delete_effect_spliced:
  assumes "hashitem_before_slot st hv = Slot a i"
    and "link_get st (Slot a i) = Some head"
    and "chain (items st) head (ys @ p # zs)"
    and "\<forall>q \<in> set ys. ITEM_key (items st q) \<noteq> key"
    and "ITEM_key (items st p) = key"
  shows "assoc_delete st key hv = Some (Inr (spliced st a i ys p))"
  using delete_effect [of st hv head ys p zs key] assms by (simp add: spliced_def)

lemma spliced_scalars:
  "hashpower (spliced st a i ys p) = hashpower st"
  "expanding (spliced st a i ys p) = expanding st"
  "expand_bucket (spliced st a i ys p) = expand_bucket st"
  "primary_hashtable (spliced st a i ys p) = primary_hashtable st"
  "old_hashtable (spliced st a i ys p) = old_hashtable st"
  "hash_bulk_move (spliced st a i ys p) = hash_bulk_move st"
  "maintenance_lock (spliced st a i ys p) = maintenance_lock st"
  by (simp_all add: spliced_def)

lemma spliced_keys:
  "ITEM_key (items (spliced st a i ys p) q) = ITEM_key (items st q)"
  by (simp add: spliced_def)

lemma spliced_items_other:
  "q \<noteq> p \<Longrightarrow> (ys = [] \<or> q \<noteq> last ys) \<Longrightarrow> items (spliced st a i ys p) q = items st q"
  by (auto simp: spliced_def)

lemma spliced_arrays_other:
  "b \<noteq> a \<Longrightarrow> arrays (spliced st a i ys p) b = arrays st b"
  by (simp add: spliced_def)

lemma spliced_buckets:
  assumes ok: "buckets_ok st a cs" and k0: "k0 < length cs"
    and c: "cs ! k0 = ys @ p # zs" and d: "distinct (concat cs)"
  shows "buckets_ok (spliced st a k0 ys p) a (map (removeAll p) cs)"
proof -
  let ?st = "spliced st a k0 ys p"
  from ok obtain heads where a: "arrays st a = Some heads"
    and l: "list_all2 (chain (items st)) heads cs"
    by (auto simp: buckets_ok_def split: option.splits)
  have len: "length heads = length cs" using l by (rule list_all2_lengthD)
  have "chain (items st) (heads ! k0) (cs ! k0)"
    using l k0 by (simp add: list_all2_conv_all_nth)
  then have ch: "chain (items st) (heads ! k0) (ys @ p # zs)" by (simp only: c)
  then have dc: "distinct (ys @ p # zs)" by (rule chain_distinct)
  let ?heads = "if ys = [] then heads[k0 := h_next (items st p)] else heads"
  have 3: "arrays ?st a = Some ?heads" using a by (simp add: spliced_def)
  have 4: "length ?heads = length cs" using len by simp
  have 5: "?heads ! k = the (arrays st a) ! k" if "k < length cs" "k \<noteq> k0" for k
    using that a by simp
  have 6: "items ?st q = items st q" if "k < length cs" "k \<noteq> k0" "q \<in> set (cs ! k)" for k q
  proof -
    have "q \<notin> set (cs ! k0)" using d that(1) k0 that(2,3) by (rule distinct_concat_one_chain)
    then have "q \<noteq> p" "ys = [] \<or> q \<noteq> last ys" using c by auto
    then show ?thesis by (rule spliced_items_other)
  qed
  have 7: "chain (items ?st) (?heads ! k0) (ys @ zs)"
  proof (cases "ys = []")
    case True
    with chain_suffix [OF ch] have "chain (items st) (h_next (items st p)) zs" by simp
    moreover have "p \<notin> set zs" using dc by simp
    ultimately show ?thesis using True k0 len by (simp add: spliced_def chain_update_other)
  next
    case False
    from splice_chain [OF ch False] show ?thesis using False by (simp add: spliced_def)
  qed
  have "buckets_ok ?st a (cs[k0 := ys @ zs])"
    using ok k0 3 4 5 6 7 by (rule buckets_ok_change)
  moreover have "map (removeAll p) cs = cs[k0 := removeAll p (cs ! k0)]"
  proof (rule map_removeAll_update [OF k0])
    fix k assume "k < length cs" "k \<noteq> k0"
    moreover have "p \<in> set (cs ! k0)" using c by simp
    ultimately show "p \<notin> set (cs ! k)" using d k0
      by (metis distinct_concat_one_chain)
  qed
  ultimately show ?thesis using c dc by (simp add: removeAll_decomp)
qed

lemma spliced_buckets_other:
  assumes ok: "buckets_ok st b cs" and ba: "b \<noteq> a"
    and dis: "set (ys @ [p]) \<inter> set (concat cs) = {}"
  shows "buckets_ok (spliced st a k0 ys p) b (map (removeAll p) cs)"
proof -
  have "buckets_ok (spliced st a k0 ys p) b cs"
  proof (rule buckets_ok_frame [OF ok])
    show "arrays (spliced st a k0 ys p) b = arrays st b" using ba by (rule spliced_arrays_other)
    fix q assume "q \<in> set (concat cs)"
    moreover have "ys \<noteq> [] \<Longrightarrow> last ys \<in> set (ys @ [p])" by simp
    moreover have "p \<in> set (ys @ [p])" by simp
    ultimately have "q \<noteq> p" "ys = [] \<or> q \<noteq> last ys" using dis by blast+
    then show "items (spliced st a k0 ys p) q = items st q" by (rule spliced_items_other)
  qed
  moreover have "p \<notin> set (concat cs)" using dis by auto
  ultimately show ?thesis by (simp add: map_removeAll_id)
qed

lemma distinct_map_removeAll:
  "distinct (map f xs) \<Longrightarrow> distinct (map f (removeAll p xs))"
  by (simp add: removeAll_filter_not_eq distinct_map_filter)

lemma nth_subset_concat: "k < length cs \<Longrightarrow> set (cs ! k) \<subseteq> set (concat cs)"
proof -
  assume "k < length cs"
  then have "cs ! k \<in> set cs" by simp
  then show ?thesis by auto
qed

lemma placed_spliced:
  "placed hash (items (spliced st a i ys p)) k cs = placed hash (items st) k cs"
  by (rule placed_keys) (rule spliced_keys)

lemma keys_spliced:
  "(\<lambda>q. ITEM_key (items (spliced st a i ys p) q)) = (\<lambda>q. ITEM_key (items st q))"
  by (rule ext) (rule spliced_keys)

lemma delete_inv:
  assumes inv: "table_inv hash st pcs ocs"
    and p: "p \<in> set (concat (pcs @ ocs))"
    and hv: "hv = hash (ITEM_key (items st p))"
  shows "\<exists>st'. assoc_delete st (ITEM_key (items st p)) hv = Some (Inr st')
           \<and> table_inv hash st' (map (removeAll p) pcs) (map (removeAll p) ocs)
           \<and> (\<lambda>q. ITEM_key (items st' q)) = (\<lambda>q. ITEM_key (items st q))
           \<and> hashpower st' = hashpower st \<and> expanding st' = expanding st
           \<and> expand_bucket st' = expand_bucket st
           \<and> primary_hashtable st' = primary_hashtable st
           \<and> old_hashtable st' = old_hashtable st
           \<and> hash_bulk_move st' = hash_bulk_move st
           \<and> maintenance_lock st' = maintenance_lock st"
proof -
  let ?n = "hashpower st"
  let ?key = "ITEM_key (items st p)"
  let ?c = "the_chain st pcs ocs hv"
  note basics = table_invD [OF inv]
  have pc: "p \<in> set ?c" unfolding hv using inv p by (rule member_in_the_chain)
  then obtain ys zs where c: "?c = ys @ p # zs" by (auto simp: in_set_conv_decomp)
  from the_slot_chain [OF inv, of hv] obtain head where
    head: "link_get st (the_slot st hv) = Some head" and ch: "chain (items st) head ?c" by blast
  from ch have dc: "distinct (ys @ p # zs)" unfolding c by (rule chain_distinct)
  have sub: "set ?c \<subseteq> set (concat (pcs @ ocs))" using inv by (rule the_chain_subset)
  have nomatch: "\<forall>q \<in> set ys. ITEM_key (items st q) \<noteq> ?key"
  proof
    fix q assume q: "q \<in> set ys"
    with dc have "q \<noteq> p" by auto
    moreover from q c sub have "q \<in> set (concat (pcs @ ocs))" by auto
    ultimately show "ITEM_key (items st q) \<noteq> ?key"
      using inv_keys_inj [OF inv] p by (auto dest: inj_onD)
  qed
  have dall: "distinct (concat pcs)" "distinct (concat ocs)"
    "set (concat pcs) \<inter> set (concat ocs) = {}"
    using basics(6) by simp_all
  have d1: "distinct (concat (map (removeAll p) pcs @ map (removeAll p) ocs))"
    using basics(6) by (simp only: map_append [symmetric] concat_map_removeAll distinct_removeAll)
  have d2: "distinct (map f (concat (map (removeAll p) pcs @ map (removeAll p) ocs)))"
    if "distinct (map f (concat (pcs @ ocs)))" for f :: "nat \<Rightarrow> string"
    using that by (simp only: map_append [symmetric] concat_map_removeAll distinct_map_removeAll)
  have pls: "placed hash (items st) k (map (removeAll p) cs)" if "placed hash (items st) k cs" for k cs
    using that by (rule placed_subset) simp_all
  show ?thesis
  proof (cases "in_old st hv")
    case True
    then have e: "expanding st" by (simp add: in_old_def)
    note x = exp_invD [OF basics(8) [OF e]]
    let ?j = "unat hv mod 2 ^ (?n - 1)"
    let ?st = "spliced st (old_hashtable st) ?j ys p"
    have j: "?j < length ocs" using x(5) by simp
    have sl: "hashitem_before_slot st hv = Slot (old_hashtable st) ?j"
      using True by (simp add: inv_slots(2) [OF inv] the_slot_def)
    have cj: "ocs ! ?j = ys @ p # zs" using True c by (simp add: the_chain_def)
    have del: "assoc_delete st ?key hv = Some (Inr ?st)"
      using sl head ch nomatch True
      by (intro delete_effect_spliced [where zs = zs and head = head])
        (simp_all add: the_slot_def c)
    have b_old: "buckets_ok ?st (old_hashtable st) (map (removeAll p) ocs)"
      using x(6) j cj dall(2) by (rule spliced_buckets)
    have "set (ys @ [p]) \<subseteq> set (concat ocs)" using nth_subset_concat [OF j] cj by simp
    then have dis: "set (ys @ [p]) \<inter> set (concat pcs) = {}" using dall(3) by blast
    have b_prim: "buckets_ok ?st (primary_hashtable st) (map (removeAll p) pcs)"
      using basics(4) x(3) [symmetric] dis by (rule spliced_buckets_other)
    note pk = placed_spliced and keys = keys_spliced
    have ex: "exp_inv hash ?st (map (removeAll p) pcs) (map (removeAll p) ocs)"
      using x(1-5) b_old pls [OF x(7)] x(8) x(9)
      by (intro exp_invI) (simp_all add: spliced_scalars pk)
    have "table_inv hash ?st (map (removeAll p) pcs) (map (removeAll p) ocs)"
      using basics(1-3) b_prim pls [OF basics(5)] d1 d2 [OF basics(7)] ex e
      by (intro table_invI) (simp_all add: spliced_scalars pk keys)
    with del keys show ?thesis by (simp add: spliced_scalars)
  next
    case False
    let ?i = "unat hv mod 2 ^ ?n"
    let ?st = "spliced st (primary_hashtable st) ?i ys p"
    have i: "?i < length pcs" using basics(3) by simp
    have sl: "hashitem_before_slot st hv = Slot (primary_hashtable st) ?i"
      using False by (simp add: inv_slots(2) [OF inv] the_slot_def)
    have ci: "pcs ! ?i = ys @ p # zs" using False c by (simp add: the_chain_def)
    have del: "assoc_delete st ?key hv = Some (Inr ?st)"
      using sl head ch nomatch False
      by (intro delete_effect_spliced [where zs = zs and head = head])
        (simp_all add: the_slot_def c)
    have b_prim: "buckets_ok ?st (primary_hashtable st) (map (removeAll p) pcs)"
      using basics(4) i ci dall(1) by (rule spliced_buckets)
    have "set (ys @ [p]) \<subseteq> set (concat pcs)" using nth_subset_concat [OF i] ci by simp
    then have dis: "set (ys @ [p]) \<inter> set (concat ocs) = {}" using dall(3) by blast
    note pk = placed_spliced and keys = keys_spliced
    have ex: "exp_inv hash ?st (map (removeAll p) pcs) (map (removeAll p) ocs)" if e: "expanding st"
    proof -
      note x = exp_invD [OF basics(8) [OF e]]
      have b_old: "buckets_ok ?st (old_hashtable st) (map (removeAll p) ocs)"
        using x(6) x(3) dis by (rule spliced_buckets_other)
      show ?thesis
        using x(1-5) b_old pls [OF x(7)] x(8) x(9)
        by (intro exp_invI) (simp_all add: spliced_scalars pk)
    qed
    have "table_inv hash ?st (map (removeAll p) pcs) (map (removeAll p) ocs)"
      using basics(1-3) b_prim pls [OF basics(5)] d1 d2 [OF basics(7)] ex basics(9)
      by (intro table_invI) (simp_all add: spliced_scalars pk keys)
    with del keys show ?thesis by (simp add: spliced_scalars)
  qed
qed

lemma ex_stable_inv: "table_inv ex_hash ex_stable [[2], [1, 3]] []"
  by (simp add: table_inv_def buckets_ok_def placed_def ex_stable_def ex_mem_def ex_hash_def
      less_Suc_eq)

lemma ex_expanding_inv: "table_inv ex_hash ex_expanding [[], [], [2], []] [[], [1, 3]]"
  by (simp add: table_inv_def exp_inv_def buckets_ok_def placed_def ex_expanding_def ex_mem_def
      ex_hash_def less_Suc_eq)

lemma moved_Nil [simp]: "moved hash mem n [] pcs = pcs"
  by (simp add: moved_def)

lemma moved_Cons:
  "moved hash mem n (p # ps) pcs =
     moved hash mem n ps (push pcs (unat (hash (ITEM_key (mem p))) mod 2 ^ n) p)"
  by (simp add: moved_def)

lemma length_moved [simp]: "length (moved hash mem n ps pcs) = length pcs"
  by (induction ps arbitrary: pcs) (simp_all add: moved_Cons)

lemma moved_keys:
  "(\<And>q. ITEM_key (mem' q) = ITEM_key (mem q)) \<Longrightarrow> moved hash mem' n ps pcs = moved hash mem n ps pcs"
  by (simp add: moved_def)

lemma mset_concat_moved:
  "length pcs = 2 ^ n \<Longrightarrow>
   mset (concat (moved hash mem n ps pcs)) = mset ps + mset (concat pcs)"
proof (induction ps arbitrary: pcs)
  case Nil
  then show ?case by simp
next
  case (Cons p ps)
  let ?b = "unat (hash (ITEM_key (mem p))) mod 2 ^ n"
  have b: "?b < length pcs" using Cons.prems by simp
  have "mset (concat (moved hash mem n ps (push pcs ?b p)))
      = mset ps + mset (concat (push pcs ?b p))"
    using Cons.prems by (intro Cons.IH) simp
  then show ?case using b by (simp add: moved_Cons mset_concat_push2)
qed

lemma moved_nth_other:
  "i < length pcs \<Longrightarrow> \<forall>p \<in> set ps. unat (hash (ITEM_key (mem p))) mod 2 ^ n \<noteq> i \<Longrightarrow>
   moved hash mem n ps pcs ! i = pcs ! i"
  by (induction ps arbitrary: pcs) (simp_all add: moved_Cons nth_push)

lemma placed_moved:
  "placed hash mem n pcs \<Longrightarrow> length pcs = 2 ^ n \<Longrightarrow> placed hash mem n (moved hash mem n ps pcs)"
proof (induction ps arbitrary: pcs)
  case Nil
  then show ?case by simp
next
  case (Cons p ps)
  let ?b = "unat (hash (ITEM_key (mem p))) mod 2 ^ n"
  have b: "?b < length pcs" using Cons.prems by simp
  have "placed hash mem n (push pcs ?b p)"
    unfolding push_def using Cons.prems(1) b by (rule placed_push) simp
  then have "placed hash mem n (moved hash mem n ps (push pcs ?b p))"
    using Cons.prems(2) by (intro Cons.IH) simp_all
  then show ?case by (simp add: moved_Cons)
qed

lemma relink_loop_unfold:
  assumes "hashpower st < 64"
  shows "relink_loop hash st it =
     (if it = 0 then Some st
      else case link_get st (Slot (primary_hashtable st)
                  (unat (hash (ITEM_key (items st it))) mod 2 ^ hashpower st)) of
             None \<Rightarrow> None
           | Some head \<Rightarrow>
               (case link_set (st\<lparr>items := (items st)(it := (items st it)\<lparr>h_next := head\<rparr>)\<rparr>)
                       (Slot (primary_hashtable st)
                          (unat (hash (ITEM_key (items st it))) mod 2 ^ hashpower st)) it of
                  None \<Rightarrow> None
                | Some st' \<Rightarrow> relink_loop hash st' (h_next (items st it))))"
  by (subst relink_loop.simps) (simp add: Let_def and_hashmask [OF assms])

lemma relink_loop_chain:
  assumes "hashpower st < 64" "length pcs = 2 ^ hashpower st"
    "buckets_ok st (primary_hashtable st) pcs"
    "chain (items st) it ps" "set ps \<inter> set (concat pcs) = {}"
  shows "\<exists>st'. relink_loop hash st it = Some st'
      \<and> buckets_ok st' (primary_hashtable st) (moved hash (items st) (hashpower st) ps pcs)
      \<and> hashpower st' = hashpower st \<and> expanding st' = expanding st
      \<and> expand_bucket st' = expand_bucket st
      \<and> primary_hashtable st' = primary_hashtable st
      \<and> old_hashtable st' = old_hashtable st
      \<and> hash_bulk_move st' = hash_bulk_move st
      \<and> maintenance_lock st' = maintenance_lock st
      \<and> (\<forall>a. a \<noteq> primary_hashtable st \<longrightarrow> arrays st' a = arrays st a)
      \<and> (\<forall>q. q \<notin> set ps \<longrightarrow> items st' q = items st q)
      \<and> (\<forall>q. ITEM_key (items st' q) = ITEM_key (items st q))"
  using assms
proof (induction ps arbitrary: st it pcs)
  case Nil
  then show ?case by (subst relink_loop_unfold) simp_all
next
  case (Cons p ps)
  let ?n = "hashpower st"
  let ?b = "unat (hash (ITEM_key (items st p))) mod 2 ^ ?n"
  let ?a = "primary_hashtable st"
  from Cons.prems(4) have it: "it = p" "p \<noteq> 0" and ch: "chain (items st) (h_next (items st p)) ps"
    by simp_all
  have b: "?b < length pcs" using Cons.prems(2) by simp
  from buckets_ok_get [OF Cons.prems(3) b] obtain head where
    head: "link_get st (Slot ?a ?b) = Some head" by blast
  have pn: "p \<notin> set (concat pcs)" using Cons.prems(5) by auto
  define st1 where "st1 = st\<lparr>items := (items st)(p := (items st p)\<lparr>h_next := head\<rparr>),
                  arrays := (arrays st)(?a \<mapsto> (the (arrays st ?a))[?b := p])\<rparr>"
  note bp = buckets_ok_push [OF Cons.prems(3) b it(2) pn head, folded st1_def]
  have sc: "hashpower st1 = ?n" "primary_hashtable st1 = ?a" "expanding st1 = expanding st"
    "expand_bucket st1 = expand_bucket st" "old_hashtable st1 = old_hashtable st"
    "hash_bulk_move st1 = hash_bulk_move st" "maintenance_lock st1 = maintenance_lock st"
    by (simp_all add: st1_def)
  have k1: "ITEM_key (items st1 q) = ITEM_key (items st q)" for q by (simp add: st1_def)
  have pps: "p \<notin> set ps" using ch by (rule chain_head_notin_tail)
  have ch1: "chain (items st1) (h_next (items st p)) ps"
    using ch pps by (simp add: st1_def chain_update_other)
  have "set (concat (push pcs ?b p)) = insert p (set (concat pcs))"
    using b by (rule set_concat_push2)
  moreover have "set ps \<inter> set (concat pcs) = {}" using Cons.prems(5) by auto
  ultimately have dis1: "set ps \<inter> set (concat (push pcs ?b p)) = {}"
    using pps by (simp only: Int_insert_right if_False)
  from Cons.IH [of st1 "push pcs ?b p" "h_next (items st p)"]
    Cons.prems(1,2) bp(2) ch1 dis1
  obtain st' where r: "relink_loop hash st1 (h_next (items st p)) = Some st'"
    and ok: "buckets_ok st' ?a (moved hash (items st1) ?n ps (push pcs ?b p))"
    and sc': "hashpower st' = ?n" "expanding st' = expanding st"
      "expand_bucket st' = expand_bucket st" "primary_hashtable st' = ?a"
      "old_hashtable st' = old_hashtable st" "hash_bulk_move st' = hash_bulk_move st"
      "maintenance_lock st' = maintenance_lock st"
    and fr: "\<forall>a. a \<noteq> ?a \<longrightarrow> arrays st' a = arrays st1 a"
      "\<forall>q. q \<notin> set ps \<longrightarrow> items st' q = items st1 q"
      "\<forall>q. ITEM_key (items st' q) = ITEM_key (items st1 q)"
    by (auto simp: sc)
  have "relink_loop hash st it = Some st'"
    using it head bp(1) r by (subst relink_loop_unfold [OF Cons.prems(1)]) simp
  moreover have "buckets_ok st' ?a (moved hash (items st) ?n (p # ps) pcs)"
    using ok by (simp add: moved_Cons moved_keys [of "items st1" "items st", OF k1])
  moreover have "\<forall>a. a \<noteq> ?a \<longrightarrow> arrays st' a = arrays st a"
    using fr(1) by (simp add: st1_def)
  moreover have "\<forall>q. q \<notin> set (p # ps) \<longrightarrow> items st' q = items st q"
    using fr(2) by (simp add: st1_def)
  moreover have "\<forall>q. ITEM_key (items st' q) = ITEM_key (items st q)"
    using fr(3) k1 by simp
  ultimately show ?case using sc' by simp
qed

lemma buckets_ok_same:
  "buckets_ok st a cs \<Longrightarrow> arrays st' a = arrays st a \<Longrightarrow> items st' = items st \<Longrightarrow>
   buckets_ok st' a cs"
  by (auto simp: buckets_ok_def split: option.splits)

lemma moved_in_bucket:
  "length pcs = 2 ^ n \<Longrightarrow> p \<in> set ps \<Longrightarrow>
   p \<in> set (moved hash mem n ps pcs ! (unat (hash (ITEM_key (mem p))) mod 2 ^ n))"
proof (induction ps arbitrary: pcs)
  case Nil
  then show ?case by simp
next
  case (Cons x xs)
  let ?b = "\<lambda>q. unat (hash (ITEM_key (mem q))) mod 2 ^ n"
  have keep: "q \<in> set (cs ! ?b q) \<Longrightarrow> length cs = 2 ^ n \<Longrightarrow> q \<in> set (moved hash mem n ys cs ! ?b q)"
    for q cs ys
  proof (induction ys arbitrary: cs)
    case Nil
    then show ?case by simp
  next
    case (Cons y ys)
    have "?b q < length cs" using Cons.prems(2) by simp
    then have "q \<in> set (push cs (?b y) y ! ?b q)" using Cons.prems(1) by (auto simp: nth_push)
    then show ?case using Cons.prems(2) by (simp add: moved_Cons Cons.IH)
  qed
  show ?case
  proof (cases "p = x")
    case True
    have "?b x < length pcs" using Cons.prems(1) by simp
    then have "x \<in> set (push pcs (?b x) x ! ?b x)" by (simp add: nth_push)
    then show ?thesis using True Cons.prems(1) by (simp add: moved_Cons keep)
  next
    case False
    with Cons.prems(2) have "p \<in> set xs" by simp
    then show ?thesis using Cons.prems(1) by (simp add: moved_Cons Cons.IH)
  qed
qed

lemma migrate_bucket_effect:
  assumes inv: "table_inv hash st pcs ocs" and e: "expanding st"
  shows "\<exists>st1. migrate_bucket hash st = Some st1
      \<and> expand_bucket st1 = expand_bucket st + 1
      \<and> link_get st1 (Slot (old_hashtable st) (expand_bucket st)) = Some 0
      \<and> buckets_ok st1 (primary_hashtable st)
           (moved hash (items st) (hashpower st) (ocs ! expand_bucket st) pcs)
      \<and> buckets_ok st1 (old_hashtable st) (ocs[expand_bucket st := []])
      \<and> hashpower st1 = hashpower st \<and> expanding st1 = expanding st
      \<and> primary_hashtable st1 = primary_hashtable st
      \<and> old_hashtable st1 = old_hashtable st
      \<and> hash_bulk_move st1 = hash_bulk_move st
      \<and> maintenance_lock st1 = maintenance_lock st
      \<and> (\<forall>q. ITEM_key (items st1 q) = ITEM_key (items st q))"
proof -
  let ?n = "hashpower st" and ?c = "expand_bucket st"
  let ?a = "primary_hashtable st" and ?o = "old_hashtable st"
  let ?ps = "ocs ! ?c"
  note basics = table_invD [OF inv]
  note x = exp_invD [OF basics(8) [OF e]]
  have c: "?c < length ocs" using x(4,5) by simp
  from buckets_ok_get [OF x(6) c] obtain it where
    it: "link_get st (Slot ?o ?c) = Some it" and ch: "chain (items st) it ?ps" by blast
  have "set ?ps \<subseteq> set (concat ocs)" using c by (rule nth_subset_concat)
  moreover have "set (concat pcs) \<inter> set (concat ocs) = {}" using basics(6) by simp
  ultimately have dis: "set ?ps \<inter> set (concat pcs) = {}" by blast
  from relink_loop_chain [OF basics(1,3,4) ch dis, of hash]
  obtain sr where r: "relink_loop hash st it = Some sr"
    and ok: "buckets_ok sr ?a (moved hash (items st) ?n ?ps pcs)"
    and sc: "hashpower sr = ?n" "expanding sr = expanding st"
      "expand_bucket sr = ?c" "primary_hashtable sr = ?a"
      "old_hashtable sr = ?o" "hash_bulk_move sr = hash_bulk_move st"
      "maintenance_lock sr = maintenance_lock st"
    and fr: "\<forall>a. a \<noteq> ?a \<longrightarrow> arrays sr a = arrays st a"
      "\<forall>q. q \<notin> set ?ps \<longrightarrow> items sr q = items st q"
      "\<forall>q. ITEM_key (items sr q) = ITEM_key (items st q)"
    by blast
  from x(6) obtain oheads where oh: "arrays st ?o = Some oheads"
    and ol: "list_all2 (chain (items st)) oheads ocs"
    by (auto simp: buckets_ok_def split: option.splits)
  have olen: "length oheads = length ocs" using ol by (rule list_all2_lengthD)
  have oh': "arrays sr ?o = Some oheads" using fr(1) x(3) oh by simp
  define st1 where "st1 = sr\<lparr>arrays := (arrays sr)(?o \<mapsto> oheads[?c := 0]),
                               expand_bucket := ?c + 1\<rparr>"
  have "(2::nat) ^ (?n - 1) < 2 ^ 64" using basics(1) by (intro pow2_lt_64) simp
  then have m: "(?c + 1) mod 2 ^ 64 = ?c + 1" using x(4) by (intro mod_less) linarith
  have mig: "migrate_bucket hash st = Some st1"
    using it r oh' c olen m
    by (simp add: migrate_bucket_def link_set_def sc st1_def)
  have g: "link_get st1 (Slot ?o ?c) = Some 0"
    using c olen by (simp add: st1_def link_get_def)
  have okp: "buckets_ok st1 ?a (moved hash (items st) ?n ?ps pcs)"
    using ok by (rule buckets_ok_same) (use x(3) in \<open>simp_all add: st1_def\<close>)
  have oko: "buckets_ok st1 ?o (ocs[?c := []])"
  proof (rule buckets_ok_change [OF x(6) c])
    show "arrays st1 ?o = Some (oheads[?c := 0])" by (simp add: st1_def)
    show "length (oheads[?c := 0]) = length ocs" using olen by simp
    show "oheads[?c := 0] ! k = the (arrays st ?o) ! k" if "k < length ocs" "k \<noteq> ?c" for k
      using that oh by simp
    show "items st1 q = items st q" if "k < length ocs" "k \<noteq> ?c" "q \<in> set (ocs ! k)" for k q
    proof -
      have "distinct (concat ocs)" using basics(6) by simp
      from distinct_concat_one_chain [OF this that(1) c that(2,3)]
      have "q \<notin> set ?ps" .
      with fr(2) show ?thesis by (simp add: st1_def)
    qed
    show "chain (items st1) (oheads[?c := 0] ! ?c) []" using c olen by simp
  qed
  have "\<forall>q. ITEM_key (items st1 q) = ITEM_key (items st q)" using fr(3) by (simp add: st1_def)
  with mig g okp oko sc show ?thesis by (simp add: st1_def)
qed

lemma concat_all_Nil: "(\<And>j. j < length cs \<Longrightarrow> cs ! j = []) \<Longrightarrow> concat cs = []"
  by (induction cs) (fastforce simp: nth_Cons')+

lemma maintenance_move_inv:
  assumes inv: "table_inv hash st pcs ocs" and e: "expanding st"
    and lock: "trylock (expand_bucket st)"
  shows "\<exists>st'. maintenance_move hash trylock st = Some st'
      \<and> table_inv hash st' (migrated_pcs hash st pcs ocs) (migrated_ocs st ocs)
      \<and> expanding st' = (expand_bucket st + 1 \<noteq> 2 ^ (hashpower st - 1))
      \<and> expand_bucket st' = expand_bucket st + 1
      \<and> hashpower st' = hashpower st
      \<and> primary_hashtable st' = primary_hashtable st
      \<and> hash_bulk_move st' = hash_bulk_move st
      \<and> maintenance_lock st' = maintenance_lock st
      \<and> (\<lambda>q. ITEM_key (items st' q)) = (\<lambda>q. ITEM_key (items st q))
      \<and> mset (concat (migrated_pcs hash st pcs ocs @ migrated_ocs st ocs))
          = mset (concat (pcs @ ocs))"
proof -
  let ?n = "hashpower st" and ?c = "expand_bucket st"
  let ?a = "primary_hashtable st" and ?o = "old_hashtable st"
  let ?ps = "ocs ! ?c"
  let ?pcs = "migrated_pcs hash st pcs ocs" and ?ocs = "migrated_ocs st ocs"
  note basics = table_invD [OF inv]
  note x = exp_invD [OF basics(8) [OF e]]
  have c: "?c < length ocs" using x(4,5) by simp
  from migrate_bucket_effect [OF inv e] obtain st1 where
    mig: "migrate_bucket hash st = Some st1"
    and eb: "expand_bucket st1 = ?c + 1"
    and okp: "buckets_ok st1 ?a ?pcs"
    and oko: "buckets_ok st1 ?o (ocs[?c := []])"
    and sc: "hashpower st1 = ?n" "expanding st1 = expanding st" "primary_hashtable st1 = ?a"
      "old_hashtable st1 = ?o" "hash_bulk_move st1 = hash_bulk_move st"
      "maintenance_lock st1 = maintenance_lock st"
    and k: "\<forall>q. ITEM_key (items st1 q) = ITEM_key (items st q)"
    unfolding migrated_pcs_def by blast
  have keys: "(\<lambda>q. ITEM_key (items st1 q)) = (\<lambda>q. ITEM_key (items st q))"
    using k by (intro ext) simp
  have pk: "placed hash (items st1) m cs = placed hash (items st) m cs" for m cs
    using k by (intro placed_keys) simp
  have hs: "hashsize (hashpower_pred ?n) = 2 ^ (?n - 1)"
    using basics(1) x(1) by (simp add: hashpower_pred_pos hashsize_pow)
  \<comment> \<open>the items are the same\<close>
  have m1: "mset (concat ?pcs) = mset ?ps + mset (concat pcs)"
    unfolding migrated_pcs_def using basics(3) by (rule mset_concat_moved)
  have m2: "mset (concat (ocs[?c := []])) + mset ?ps = mset (concat ocs)"
    using mset_concat_update [OF c, of "[]"] by simp
  have m3: "mset (concat (?pcs @ ocs[?c := []])) = mset (concat (pcs @ ocs))"
    using m1 m2 by (simp add: ac_simps)
  have last: "concat (ocs[?c := []]) = []" if "?c + 1 = 2 ^ (?n - 1)"
  proof (rule concat_all_Nil)
    fix j assume "j < length (ocs[?c := []])"
    then have j: "j < length ocs" by simp
    with that x(5) have "j < ?c \<or> j = ?c" by linarith
    then show "ocs[?c := []] ! j = []" using x(8) [OF j] j by auto
  qed
  have m4: "mset (concat (?pcs @ ?ocs)) = mset (concat (pcs @ ocs))"
  proof (cases "?c + 1 = 2 ^ (?n - 1)")
    case True
    have "mset (concat (?pcs @ [])) = mset (concat ?pcs) + mset (concat (ocs[?c := []]))"
      unfolding last [OF True] by simp
    also have "\<dots> = mset (concat (pcs @ ocs))" using m3 by simp
    finally show ?thesis using True by (simp add: migrated_ocs_def)
  next
    case False
    with m3 show ?thesis by (simp add: migrated_ocs_def)
  qed
  have d1: "distinct (concat (?pcs @ ?ocs))"
    using mset_eq_imp_distinct_iff [OF m4] basics(6) by simp
  have "mset (map f (concat (?pcs @ ?ocs))) = mset (map f (concat (pcs @ ocs)))" for f :: "nat \<Rightarrow> string"
    using m4 by (metis mset_map)
  from mset_eq_imp_distinct_iff [OF this] basics(7)
  have d2: "distinct (map (\<lambda>q. ITEM_key (items st q)) (concat (?pcs @ ?ocs)))" by simp
  have plp: "placed hash (items st) ?n ?pcs"
    unfolding migrated_pcs_def using basics(5,3) by (rule placed_moved)
  have lp: "length ?pcs = 2 ^ ?n" using basics(3) by (simp add: migrated_pcs_def)
  show ?thesis
  proof (cases "?c + 1 = 2 ^ (?n - 1)")
    case True
    define st' where "st' = st1\<lparr>expanding := False, arrays := (arrays st1)(?o := None)\<rparr>"
    have dn: "expansion_done st1 = st'"
      using True by (simp add: expansion_done_def eb sc hs st'_def)
    have mm: "maintenance_move hash trylock st = Some st'"
      using lock mig dn by (simp add: maintenance_move_def)
    have okp': "buckets_ok st' ?a ?pcs"
      using okp by (rule buckets_ok_same) (use x(3) in \<open>simp_all add: st'_def\<close>)
    have oc: "?ocs = []" using True by (simp add: migrated_ocs_def)
    have "table_inv hash st' ?pcs []"
      using basics(1,2) lp okp' plp d1 d2
      by (intro table_invI) (simp_all add: st'_def sc pk keys oc)
    with mm True m4 keys show ?thesis by (simp add: st'_def sc eb oc)
  next
    case False
    have dn: "expansion_done st1 = st1"
      using False by (simp add: expansion_done_def eb sc hs)
    have mm: "maintenance_move hash trylock st = Some st1"
      using lock mig dn by (simp add: maintenance_move_def)
    have oc: "?ocs = ocs[?c := []]" using False by (simp add: migrated_ocs_def)
    have lt: "?c + 1 < 2 ^ (?n - 1)" using False x(4) by linarith
    have plo: "placed hash (items st) (?n - 1) (ocs[?c := []])"
    proof (rule placed_subset [OF x(7)])
      show "length (ocs[?c := []]) = length ocs" by simp
      fix i assume "i < length ocs"
      then show "set (ocs[?c := []] ! i) \<subseteq> set (ocs ! i)"
        by (cases "i = ?c") simp_all
    qed
    have em1: "ocs[?c := []] ! j = []" if "j < length (ocs[?c := []])" "j < expand_bucket st1" for j
      using that x(8) [of j] by (cases "j = ?c") (simp_all add: eb)
    have em2: "?pcs ! i = []"
      if "i < length ?pcs" "expand_bucket st1 \<le> i mod 2 ^ (hashpower st1 - 1)" for i
    proof -
      from that have i: "i < length pcs" and ge: "?c + 1 \<le> i mod 2 ^ (?n - 1)"
        by (simp_all add: migrated_pcs_def eb sc)
      have "\<forall>p \<in> set ?ps. unat (hash (ITEM_key (items st p))) mod 2 ^ ?n \<noteq> i"
      proof
        fix p assume "p \<in> set ?ps"
        with x(7) c have "unat (hash (ITEM_key (items st p))) mod 2 ^ (?n - 1) = ?c"
          by (simp add: placed_def)
        with ge mod_pow_pred [of "unat (hash (ITEM_key (items st p)))" ?n]
        show "unat (hash (ITEM_key (items st p))) mod 2 ^ ?n \<noteq> i" by auto
      qed
      with i have "?pcs ! i = pcs ! i" unfolding migrated_pcs_def by (rule moved_nth_other)
      moreover have "pcs ! i = []" using x(9) [OF i] ge by simp
      ultimately show ?thesis by simp
    qed
    have ex: "exp_inv hash st1 ?pcs (ocs[?c := []])"
      using x(1-3) lt x(5) oko plo em1 em2
      by (intro exp_invI) (simp_all add: sc eb pk)
    have "table_inv hash st1 ?pcs (ocs[?c := []])"
      using basics(1,2) lp okp plp d1 d2 ex e
      by (intro table_invI) (simp_all add: sc pk keys oc)
    with mm False m4 keys e show ?thesis by (simp add: sc eb oc)
  qed
qed

declare bulk_move_loop.simps [simp del]

lemma carried_refl: "carried st cs st cs"
  by (simp add: carried_def)

lemma carried_trans: "carried st cs st' cs' \<Longrightarrow> carried st' cs' st'' cs'' \<Longrightarrow> carried st cs st'' cs''"
  by (simp add: carried_def)

lemma expand_inv:
  assumes inv: "table_inv hash st pcs ocs" and ne: "\<not> expanding st"
    and new: "new \<noteq> 0" "new \<notin> dom (arrays st)" and hp: "hashpower st + 1 < 64"
  shows "table_inv hash (assoc_expand new st) (replicate (2 ^ (hashpower st + 1)) []) pcs"
    and "expanding (assoc_expand new st)"
    and "expand_bucket (assoc_expand new st) = 0"
    and "hashpower (assoc_expand new st) = hashpower st + 1"
    and "primary_hashtable (assoc_expand new st) = new"
    and "old_hashtable (assoc_expand new st) = primary_hashtable st"
    and "items (assoc_expand new st) = items st"
    and "hash_bulk_move (assoc_expand new st) = hash_bulk_move st"
    and "maintenance_lock (assoc_expand new st) = maintenance_lock st"
    and "arrays (assoc_expand new st)
           = (arrays st)(new \<mapsto> replicate (2 ^ (hashpower st + 1)) 0)"
proof -
  let ?n = "hashpower st"
  note basics = table_invD [OF inv]
  have oc: "ocs = []" using ne by (rule basics(9))
  have m: "(?n + 1) mod 2 ^ 32 = ?n + 1" using hp by simp
  have hs: "hashsize (?n + 1) = 2 ^ (?n + 1)" using hp by (rule hashsize_pow)
  define st' where "st' = st\<lparr>old_hashtable := primary_hashtable st,
      arrays := (arrays st)(new \<mapsto> replicate (2 ^ (?n + 1)) 0),
      primary_hashtable := new, hashpower := ?n + 1, expanding := True, expand_bucket := 0\<rparr>"
  have ex: "assoc_expand new st = st'"
    using new(1) by (simp add: assoc_expand_def calloc_def Let_def m [simplified] hs [simplified] st'_def)
  from basics(4) have pd: "primary_hashtable st \<in> dom (arrays st)"
    by (auto simp: buckets_ok_def split: option.splits)
  with new(2) have np: "new \<noteq> primary_hashtable st" by auto
  have b1: "buckets_ok st' new (replicate (2 ^ (?n + 1)) [])"
    by (simp add: buckets_ok_def st'_def list_all2_conv_all_nth)
  have b2: "buckets_ok st' (primary_hashtable st) pcs"
    using basics(4) by (rule buckets_ok_same) (use np in \<open>simp_all add: st'_def\<close>)
  have p1: "placed hash (items st) (?n + 1) (replicate (2 ^ (?n + 1)) [])"
    by (simp add: placed_def)
  have c0: "concat (replicate k ([]::nat list)) = []" for k by (induction k) simp_all
  have xi: "exp_inv hash st' (replicate (2 ^ (?n + 1)) []) pcs"
    using basics(2,3,5) np b2
    by (intro exp_invI) (simp_all add: st'_def)
  have "table_inv hash st' (replicate (2 ^ (?n + 1)) []) pcs"
    using hp new(1) b1 p1 basics(6,7) xi
    by (intro table_invI) (simp_all add: st'_def oc c0)
  then show "table_inv hash (assoc_expand new st) (replicate (2 ^ (hashpower st + 1)) []) pcs"
    by (simp add: ex)
  show "expanding (assoc_expand new st)"
    "expand_bucket (assoc_expand new st) = 0"
    "hashpower (assoc_expand new st) = hashpower st + 1"
    "primary_hashtable (assoc_expand new st) = new"
    "old_hashtable (assoc_expand new st) = primary_hashtable st"
    "items (assoc_expand new st) = items st"
    "hash_bulk_move (assoc_expand new st) = hash_bulk_move st"
    "maintenance_lock (assoc_expand new st) = maintenance_lock st"
    "arrays (assoc_expand new st) = (arrays st)(new \<mapsto> replicate (2 ^ (hashpower st + 1)) 0)"
    by (simp_all add: ex st'_def)
qed

lemma remaining_move:
  assumes inv: "table_inv hash st pcs ocs" and e: "expanding st"
    and st': "expanding st' = (expand_bucket st + 1 \<noteq> 2 ^ (hashpower st - 1))"
      "expand_bucket st' = expand_bucket st + 1" "hashpower st' = hashpower st"
  shows "remaining st' < remaining st"
proof -
  from exp_invD(4) [OF table_invD(8) [OF inv e]]
  have "expand_bucket st < 2 ^ (hashpower st - 1)" .
  then show ?thesis using e st' by (auto simp: remaining_def)
qed

lemma bulk_move_loop_inv:
  assumes "table_inv hash st pcs ocs" "\<forall>b. trylock b"
  shows "\<exists>st' pcs' ocs'. bulk_move_loop hash trylock bulk ii st = Some st'
      \<and> table_inv hash st' pcs' ocs'
      \<and> carried st (pcs @ ocs) st' (pcs' @ ocs')
      \<and> remaining st' \<le> remaining st
      \<and> (ii < bulk \<and> expanding st \<longrightarrow> remaining st' < remaining st)"
  using assms
proof (induction hash trylock bulk ii st arbitrary: pcs ocs rule: bulk_move_loop.induct)
  case (1 hash trylock bulk ii st)
  show ?case
  proof (cases "ii < bulk \<and> expanding st")
    case False
    then have "bulk_move_loop hash trylock bulk ii st = Some st"
      by (subst bulk_move_loop.simps) auto
    with "1.prems"(1) False carried_refl show ?thesis by blast
  next
    case True
    then have e: "expanding st" by simp
    from "1.prems"(2) have lk: "trylock (expand_bucket st)" by simp
    from maintenance_move_inv [of hash st pcs ocs trylock, OF "1.prems"(1) e lk] obtain st1 where
      mm: "maintenance_move hash trylock st = Some st1"
      and inv1: "table_inv hash st1 (migrated_pcs hash st pcs ocs) (migrated_ocs st ocs)"
      and pr: "expanding st1 = (expand_bucket st + 1 \<noteq> 2 ^ (hashpower st - 1))"
        "expand_bucket st1 = expand_bucket st + 1" "hashpower st1 = hashpower st"
      and ca: "carried st (pcs @ ocs) st1 (migrated_pcs hash st pcs ocs @ migrated_ocs st ocs)"
      unfolding carried_def by blast
    from "1.IH" [OF True mm inv1 "1.prems"(2)] obtain st' pcs' ocs' where
      r: "bulk_move_loop hash trylock bulk (ii + 1) st1 = Some st'"
      and inv': "table_inv hash st' pcs' ocs'"
      and ca': "carried st1 (migrated_pcs hash st pcs ocs @ migrated_ocs st ocs) st' (pcs' @ ocs')"
      and rm: "remaining st' \<le> remaining st1" by blast
    have "bulk_move_loop hash trylock bulk ii st = Some st'" using True mm r
      by (subst bulk_move_loop.simps) simp
    moreover have "remaining st1 < remaining st" using "1.prems"(1) e pr by (rule remaining_move)
    ultimately show ?thesis using inv' carried_trans [OF ca ca'] rm
      by (intro exI [of _ st'] exI [of _ pcs'] exI [of _ ocs']) simp
  qed
qed

lemma expansion_phase_inv:
  assumes "table_inv hash st pcs ocs" "expanding st" "0 < hash_bulk_move st" "\<forall>b. trylock b"
  shows "\<exists>st' pcs'. expansion_phase hash trylock st = Some st'
      \<and> table_inv hash st' pcs' [] \<and> \<not> expanding st'
      \<and> carried st (pcs @ ocs) st' pcs'"
  using assms
proof (induction "remaining st" arbitrary: st pcs ocs rule: less_induct)
  case less
  from bulk_move_loop_inv [OF less.prems(1,4), of "hash_bulk_move st" 0] less.prems(2,3)
  obtain st1 pcs1 ocs1 where
    b: "bulk_move hash trylock st = Some st1"
    and inv1: "table_inv hash st1 pcs1 ocs1"
    and ca: "carried st (pcs @ ocs) st1 (pcs1 @ ocs1)"
    and rm: "remaining st1 < remaining st"
    unfolding bulk_move_def by auto
  show ?case
  proof (cases "expanding st1")
    case True
    have "0 < hash_bulk_move st1" using ca less.prems(3) by (simp add: carried_def)
    from less.hyps [OF rm inv1 True this less.prems(4)] obtain st' pcs' where
      "expansion_phase hash trylock st1 = Some st'" "table_inv hash st' pcs' []"
      "\<not> expanding st'" "carried st1 (pcs1 @ ocs1) st' pcs'" by blast
    moreover from this(1) b True have "expansion_phase hash trylock st = Some st'"
      by (subst expansion_phase.simps) simp
    ultimately show ?thesis using carried_trans [OF ca] by blast
  next
    case False
    then have "ocs1 = []" by (rule table_invD(9) [OF inv1])
    moreover from b False have "expansion_phase hash trylock st = Some st1"
      by (subst expansion_phase.simps) simp
    ultimately show ?thesis using inv1 ca False by auto
  qed
qed

text \<open>\<open>assoc_init\<close> establishes the invariant: the table it leaves is well formed,
  stable and empty.\<close>

lemma init_inv:
  assumes "assoc_init hashtable_init new (initial_state d mem) = Inr st" "hashpower st < 64"
  shows "table_inv hash st (replicate (2 ^ hashpower st) []) []" "\<not> expanding st"
    "items st = mem"
proof -
  let ?h = "if hashtable_init \<noteq> 0 then nat (hashtable_init mod 2 ^ 32) else d"
  from assms(1) have new: "new \<noteq> 0"
    by (auto simp: assoc_init_def Let_def calloc_def split: if_splits)
  with assms(1) have st: "st = (initial_state d mem)\<lparr>hashpower := ?h,
      arrays := [new \<mapsto> replicate (hashsize ?h) 0], primary_hashtable := new\<rparr>"
    by (auto simp: assoc_init_def Let_def calloc_def initial_state_def split: if_splits)
  then have h: "hashpower st = ?h" by simp
  with assms(2) have hs: "hashsize ?h = 2 ^ ?h" by (intro hashsize_pow) simp
  have b: "buckets_ok st new (replicate (2 ^ ?h) [])"
    unfolding st by (simp add: buckets_ok_def hs list_all2_conv_all_nth)
  have "table_inv hash st (replicate (2 ^ ?h) []) []"
    using assms(2) new b
    by (intro table_invI) (simp_all add: st placed_def concat_replicate_Nil initial_state_def)
  then show "table_inv hash st (replicate (2 ^ hashpower st) []) []" by (simp only: h)
  show "\<not> expanding st" "items st = mem" by (simp_all add: st initial_state_def)
qed

text \<open>Inserting items with new, distinct keys keeps the table well formed and adds
  exactly those items.\<close>

lemma insert_all_inv:
  assumes "table_inv hash st pcs ocs"
    and "distinct (map (\<lambda>q. ITEM_key (items st q)) (ps @ concat (pcs @ ocs)))"
    and "0 \<notin> set ps"
  shows "\<exists>st' pcs' ocs'. insert_all hash st ps = Some st'
      \<and> table_inv hash st' pcs' ocs'
      \<and> mset (concat (pcs' @ ocs')) = mset ps + mset (concat (pcs @ ocs))
      \<and> (\<lambda>q. ITEM_key (items st' q)) = (\<lambda>q. ITEM_key (items st q))
      \<and> hashpower st' = hashpower st \<and> expanding st' = expanding st
      \<and> hash_bulk_move st' = hash_bulk_move st
      \<and> dom (arrays st') = dom (arrays st)"
  using assms
proof (induction ps arbitrary: st pcs ocs)
  case Nil
  then show ?case by auto
next
  case (Cons p ps)
  let ?key = "\<lambda>q. ITEM_key (items st q)"
  let ?hv = "hash (?key p)"
  let ?pcs = "fst (insert_chains st ?hv p pcs ocs)" and ?ocs = "snd (insert_chains st ?hv p pcs ocs)"
  from Cons.prems(2) have dk: "distinct (map ?key (p # ps @ concat (pcs @ ocs)))" by simp
  then have d: "distinct (p # ps @ concat (pcs @ ocs))" unfolding distinct_map by (elim conjE)
  have p0: "p \<noteq> 0" using Cons.prems(3) by auto
  have fresh: "p \<notin> set (concat (pcs @ ocs))" using d by auto
  have newkey: "?key p \<notin> ?key ` set (concat (pcs @ ocs))" using dk by auto
  from insert_inv [OF Cons.prems(1) p0 fresh newkey refl] obtain st1 where
    ins: "assoc_insert st p ?hv = Some st1"
    and inv1: "table_inv hash st1 ?pcs ?ocs"
    and keys: "(\<lambda>q. ITEM_key (items st1 q)) = ?key"
    and sc: "hashpower st1 = hashpower st" "expanding st1 = expanding st"
      "hash_bulk_move st1 = hash_bulk_move st"
    by blast
  have da: "dom (arrays st1) = dom (arrays st)"
  proof -
    from ins obtain a i head where "link_get st (Slot a i) = Some head"
      and s1: "link_set (st\<lparr>items := (items st)(p := (items st p)\<lparr>h_next := head\<rparr>)\<rparr>) (Slot a i) p = Some st1"
      by (auto simp: assoc_insert_def assoc_insert_slot_def Let_def split: option.splits if_splits)
    then show ?thesis
      by (auto simp: link_set_def link_get_def split: option.splits if_splits)
  qed
  have len: "unat ?hv mod 2 ^ hashpower st < length pcs"
    using table_invD(3) [OF Cons.prems(1)] by simp
  have ms: "mset (concat (?pcs @ ?ocs)) = add_mset p (mset (concat (pcs @ ocs)))"
  proof (cases "in_old st ?hv")
    case True
    then have "expanding st" by (simp add: in_old_def)
    then have "unat ?hv mod 2 ^ (hashpower st - 1) < length ocs"
      using exp_invD(5) [OF table_invD(8) [OF Cons.prems(1)]] by simp
    with True show ?thesis by (simp add: insert_chains_def mset_concat_push2)
  next
    case False
    with len show ?thesis by (simp add: insert_chains_def mset_concat_push2)
  qed
  have "image_mset ?key (mset (concat (?pcs @ ?ocs)))
      = image_mset ?key (add_mset p (mset (concat (pcs @ ocs))))"
    using ms by (rule arg_cong)
  then have "mset (map ?key (concat (?pcs @ ?ocs))) = mset (map ?key (p # concat (pcs @ ocs)))"
    by simp
  then have "mset (map ?key (ps @ concat (?pcs @ ?ocs))) = mset (map ?key (p # ps @ concat (pcs @ ocs)))"
    by simp
  then have "distinct (map ?key (ps @ concat (?pcs @ ?ocs)))"
    using dk mset_eq_imp_distinct_iff by blast
  then have dk1: "distinct (map (\<lambda>q. ITEM_key (items st1 q)) (ps @ concat (?pcs @ ?ocs)))"
    by (simp only: keys)
  have z: "0 \<notin> set ps" using Cons.prems(3) by simp
  from Cons.IH [OF inv1 dk1 z] obtain st' pcs' ocs' where
    "insert_all hash st1 ps = Some st'" "table_inv hash st' pcs' ocs'"
    "mset (concat (pcs' @ ocs')) = mset ps + mset (concat (?pcs @ ?ocs))"
    "(\<lambda>q. ITEM_key (items st' q)) = (\<lambda>q. ITEM_key (items st1 q))"
    "hashpower st' = hashpower st1" "expanding st' = expanding st1"
    "hash_bulk_move st' = hash_bulk_move st1" "dom (arrays st') = dom (arrays st1)"
    by blast
  with ins ms keys sc da show ?case
    by (intro exI [of _ st'] exI [of _ pcs'] exI [of _ ocs']) simp
qed

lemma link_get_cong:
  "arrays st' = arrays st \<Longrightarrow> items st' = items st \<Longrightarrow> link_get st' l = link_get st l"
  by (cases l) (simp_all add: link_get_def)

lemma before_loop_frame_Some:
  assumes "hashitem_before_loop st key pos = Some r"
  shows "arrays st' = arrays st \<Longrightarrow> items st' = items st \<Longrightarrow>
   hashitem_before_loop st' key pos = Some r"
  using assms
proof (induction st key pos r rule: hashitem_before_loop.raw_induct [rotated 1, consumes 1])
  case (1 f st key pos r)
  have eqs: "arrays st' = arrays st" "items st' = items st" by fact+
  note lg = link_get_cong [OF eqs]
  have body: "(case link_get st pos of
        None \<Rightarrow> None
      | Some p \<Rightarrow>
          if p \<noteq> 0 \<and> (length key \<noteq> nkey (items st p)
                      \<or> \<not> memcmp_eq key (ITEM_key (items st p)) (length key))
          then f st key (Next_of p)
          else Some pos) = Some r" by fact
  then obtain p where p: "link_get st pos = Some p"
    by (auto split: option.splits)
  show ?case
  proof (cases "p \<noteq> 0 \<and> (length key \<noteq> nkey (items st p)
                      \<or> \<not> memcmp_eq key (ITEM_key (items st p)) (length key))")
    case True
    with body p have "f st key (Next_of p) = Some r" by simp
    then have "hashitem_before_loop st' key (Next_of p) = Some r"
      using eqs by (rule "1.IH")
    with True p show ?thesis
      by (subst hashitem_before_loop.simps) (simp add: lg eqs)
  next
    case False
    with body p show ?thesis
      by (subst hashitem_before_loop.simps) (auto simp add: lg eqs)
  qed
qed

lemma before_loop_frame:
  assumes "arrays st' = arrays st" "items st' = items st"
  shows "hashitem_before_loop st' key pos = hashitem_before_loop st key pos"
proof (cases "hashitem_before_loop st key pos")
  case None
  show ?thesis
  proof (cases "hashitem_before_loop st' key pos")
    case n: None
    with None show ?thesis by simp
  next
    case (Some r)
    from before_loop_frame_Some [OF Some assms(1,2) [symmetric]] None show ?thesis by simp
  qed
next
  case (Some r)
  from before_loop_frame_Some [OF Some assms] Some show ?thesis by simp
qed

lemma isdigit_not_space_sign:
  "isdigit c \<Longrightarrow> \<not> isspace c \<and> c \<noteq> CHR ''-'' \<and> c \<noteq> CHR ''+''"
  by (auto simp: isdigit_def isspace_def)

lemma int_of_long_id: "- (2 ^ 31) \<le> x \<Longrightarrow> x < 2 ^ 31 \<Longrightarrow> int_of_long x = x"
  by (simp add: int_of_long_def)

lemma int_of_long_range: "- (2 ^ 31) \<le> int_of_long x \<and> int_of_long x < 2 ^ 31"
proof -
  have "0 \<le> (x + 2 ^ 31) mod 2 ^ 32" "(x + 2 ^ 31) mod 2 ^ 32 < 2 ^ 32"
    by simp_all
  then show ?thesis by (simp add: int_of_long_def)
qed

lemma atoi_valid_positive:
  assumes "valid_positive s"
  shows "atoi s = atoi_digits 0 s" "0 < atoi s"
proof -
  from assms obtain c cs where s: "s = c # cs" and c: "isdigit c"
    by (cases s) (auto simp: valid_positive_def)
  from assms have b: "0 < atoi_digits 0 s" "atoi_digits 0 s \<le> 2147483647"
    by (simp_all add: valid_positive_def)
  from isdigit_not_space_sign [OF c] s b have "strtol s = atoi_digits 0 s"
    by (simp add: strtol_def)
  moreover have "int_of_long (atoi_digits 0 s) = atoi_digits 0 s"
    using b by (intro int_of_long_id) simp_all
  ultimately show "atoi s = atoi_digits 0 s" by (simp add: atoi_def)
  with b show "0 < atoi s" by simp
qed

lemma atoi_digits_no_digit: "(case cs of [] \<Rightarrow> True | d # ds \<Rightarrow> \<not> isdigit d) \<Longrightarrow> atoi_digits 0 cs = 0"
  by (cases cs) simp_all

lemma atoi_no_number:
  assumes "no_number s"
  shows "atoi s = 0"
proof -
  have "strtol s = 0"
  proof (cases "dropWhile isspace s")
    case Nil
    show ?thesis unfolding strtol_def Nil by simp
  next
    case (Cons c cs)
    show ?thesis
    proof (cases "c = CHR ''-'' \<or> c = CHR ''+''")
      case True
      from assms True have "atoi_digits 0 cs = 0"
        unfolding no_number_def Cons by (intro atoi_digits_no_digit) simp
      with True show ?thesis unfolding strtol_def Cons by auto
    next
      case False
      from assms False have "\<not> isdigit c" unfolding no_number_def Cons by simp
      with False show ?thesis unfolding strtol_def Cons by simp
    qed
  qed
  then show ?thesis by (simp add: atoi_def int_of_long_def)
qed

lemma buckets_ok_length:
  "buckets_ok st a cs \<Longrightarrow> a \<in> dom (arrays st) \<and> array_length st a = length cs"
  by (auto simp: buckets_ok_def array_length_def split: option.splits dest: list_all2_lengthD)

lemma half_pow: "0 < n \<Longrightarrow> (2::nat) ^ n div 2 = 2 ^ (n - 1)"
  by (cases n) simp_all

lemma inv_old_inv:
  assumes "table_inv hash st pcs ocs"
  shows "old_inv st"
  unfolding old_inv_def
proof (intro impI)
  assume e: "expanding st"
  note basics = table_invD [OF assms]
  note x = exp_invD [OF basics(8) [OF e]]
  from buckets_ok_length [OF basics(4)] buckets_ok_length [OF x(6)] x(1,2,5) basics(3)
  show "old_hashtable st \<noteq> 0 \<and> old_hashtable st \<in> dom (arrays st) \<and>
        array_length st (old_hashtable st) = array_length st (primary_hashtable st) div 2"
    by (simp add: half_pow)
qed

lemma expand_failure_inv:
  assumes "table_inv hash st pcs ocs" "\<not> expanding st"
  shows "table_inv hash (assoc_expand 0 st) pcs ocs"
proof -
  note basics = table_invD [OF assms(1)]
  let ?st = "st\<lparr>old_hashtable := primary_hashtable st\<rparr>"
  have e: "assoc_expand 0 st = ?st" by (simp add: assoc_expand_def calloc_def Let_def)
  have "buckets_ok ?st (primary_hashtable st) pcs"
    using basics(4) by (rule buckets_ok_same) simp_all
  then have "table_inv hash ?st pcs ocs"
    using basics(1-3,5-7) basics(9) assms(2)
    by (intro table_invI) simp_all
  then show ?thesis by (simp add: e)
qed

lemma iterate_all_locked:
  assumes R: "\<And>iter'. \<not> bucket_locked iter' \<Longrightarrow> iter_bucket iter' = Suc b \<Longrightarrow>
                iterate_all st iter' = Some R"
    and b: "Suc b < 2 ^ 64"
  shows "bucket_locked iter \<Longrightarrow> iter_bucket iter = b \<Longrightarrow>
         chain (items st) (iter_next iter) rest \<Longrightarrow>
         iterate_all st iter = Some (rest @ R)"
proof (induction rest arbitrary: iter)
  case Nil
  then have n: "iter_next iter = 0" by simp
  have m: "Suc b mod 2 ^ 64 = Suc b" using b by (rule mod_less)
  let ?i = "iter\<lparr>iter_bucket := Suc b, bucket_locked := False\<rparr>"
  have "assoc_iterate st iter = Some (True, 0, ?i)"
    using Nil.prems(1,2) n m by (simp add: assoc_iterate_def)
  moreover have "iterate_all st ?i = Some R" by (rule R) simp_all
  ultimately show ?case by (subst iterate_all.simps) simp
next
  case (Cons x xs)
  then have x: "iter_next iter = x" "x \<noteq> 0" "chain (items st) (h_next (items st x)) xs"
    by simp_all
  let ?i = "iter\<lparr>iter_it := x, iter_next := h_next (items st x)\<rparr>"
  have a: "assoc_iterate st iter = Some (True, x, ?i)"
    using Cons.prems(1) x by (simp add: assoc_iterate_def Let_def)
  have "iterate_all st ?i = Some (xs @ R)"
    using Cons.prems(1,2) x(3) by (intro Cons.IH) simp_all
  with a x(2) show ?case by (subst iterate_all.simps) simp
qed

lemma iterate_all_unlocked:
  assumes hp: "hashpower st < 64" and len: "length pcs = 2 ^ hashpower st"
    and ok: "buckets_ok st (primary_hashtable st) pcs"
  shows "b \<le> length pcs \<Longrightarrow> \<not> bucket_locked iter \<Longrightarrow> iter_bucket iter = b \<Longrightarrow>
         iterate_all st iter = Some (concat (drop b pcs))"
proof (induction "length pcs - b" arbitrary: b iter)
  case 0
  then have b: "b = length pcs" by simp
  have "hashsize (hashpower st) = length pcs" using hp len by (simp add: hashsize_pow)
  then have "assoc_iterate st iter = Some (False, 0, iter)"
    using "0.prems"(2,3) b by (simp add: assoc_iterate_def)
  then show ?case using b by (subst iterate_all.simps) simp
next
  case (Suc k)
  then have b: "b < length pcs" by simp
  have hs: "hashsize (hashpower st) = length pcs" using hp len by (simp add: hashsize_pow)
  have "(2::nat) ^ hashpower st < 2 ^ 64" using hp by (rule pow2_lt_64)
  then have b64: "Suc b < 2 ^ 64" using b len by simp
  then have m: "Suc b mod 2 ^ 64 = Suc b" by (rule mod_less)
  from buckets_ok_get [OF ok b] obtain h where
    h: "link_get st (Slot (primary_hashtable st) b) = Some h"
    and ch: "chain (items st) h (pcs ! b)" by blast
  have R: "iterate_all st iter' = Some (concat (drop (Suc b) pcs))"
    if "\<not> bucket_locked iter'" "iter_bucket iter' = Suc b" for iter'
    using Suc.hyps(2) b that by (intro Suc.hyps(1)) simp_all
  have d: "concat (drop b pcs) = pcs ! b @ concat (drop (Suc b) pcs)"
    using b by (simp flip: Cons_nth_drop_Suc)
  show ?case
  proof (cases "h = 0")
    case True
    with ch have e: "pcs ! b = []" by simp
    let ?i = "iter\<lparr>bucket_locked := False, iter_it := 0, iter_bucket := Suc b\<rparr>"
    have "assoc_iterate st iter = Some (True, 0, ?i)"
      using Suc.prems(2,3) b hs h True m by (simp add: assoc_iterate_def Let_def)
    moreover have "iterate_all st ?i = Some (concat (drop (Suc b) pcs))" by (rule R) simp_all
    ultimately show ?thesis using d e by (subst iterate_all.simps) simp
  next
    case False
    with ch obtain xs where xs: "pcs ! b = h # xs" "chain (items st) (h_next (items st h)) xs"
      by (cases "pcs ! b") auto
    let ?i = "iter\<lparr>bucket_locked := True, iter_it := h, iter_next := h_next (items st h)\<rparr>"
    have a: "assoc_iterate st iter = Some (True, h, ?i)"
      using Suc.prems(2,3) b hs h False by (simp add: assoc_iterate_def Let_def)
    have "iterate_all st ?i = Some (xs @ concat (drop (Suc b) pcs))"
      using R b64 by (rule iterate_all_locked) (use Suc.prems(3) xs(2) in simp_all)
    with a False show ?thesis using d xs(1) by (subst iterate_all.simps) simp
  qed
qed

text \<open>A table filled from scratch: after \<open>assoc_init\<close> and the insertion of \<open>N\<close> items
  with distinct keys the table is well formed and stable, and its chains hold
  exactly those \<open>N\<close> items.\<close>

lemma filled_table_inv:
  assumes init: "assoc_init hashtable_init new (initial_state d mem) = Inr st0"
    and hp: "hashpower st0 < 64"
    and keys: "distinct (map (\<lambda>q. ITEM_key (mem q)) ps)" and nz: "0 \<notin> set ps"
  shows "\<exists>st pcs. insert_all hash st0 ps = Some st
      \<and> table_inv hash st pcs [] \<and> \<not> expanding st
      \<and> mset (concat pcs) = mset ps \<and> length (concat pcs) = length ps
      \<and> (\<lambda>q. ITEM_key (items st q)) = (\<lambda>q. ITEM_key (mem q))"
proof -
  have i: "table_inv hash st0 (replicate (2 ^ hashpower st0) []) []" "\<not> expanding st0"
    "items st0 = mem"
    using init hp by (rule init_inv)+
  let ?pcs = "replicate (2 ^ hashpower st0) ([]::nat list)"
  have "distinct (map (\<lambda>q. ITEM_key (items st0 q)) (ps @ concat (?pcs @ [])))"
    using keys i(3) by (simp add: concat_replicate_Nil)
  from insert_all_inv [OF i(1) this nz] obtain st pcs ocs where
    a: "insert_all hash st0 ps = Some st" "table_inv hash st pcs ocs"
    "mset (concat (pcs @ ocs)) = mset ps + mset (concat (?pcs @ []))"
    "(\<lambda>q. ITEM_key (items st q)) = (\<lambda>q. ITEM_key (items st0 q))"
    "expanding st = expanding st0"
    by blast
  from a(5) i(2) have ne: "\<not> expanding st" by simp
  then have oc: "ocs = []" by (rule table_invD(9) [OF a(2)])
  from a(3) have m: "mset (concat pcs) = mset ps" by (simp add: oc concat_replicate_Nil)
  then have "length (concat pcs) = length ps" by (rule mset_eq_length)
  with a ne oc m i(3) show ?thesis by auto
qed

section \<open>Sequences of calls and the store of the specification\<close>

lemma buckets_ok_nonzero:
  assumes "buckets_ok st a cs"
  shows "0 \<notin> set (concat cs)"
proof
  assume "0 \<in> set (concat cs)"
  then obtain c where c: "c \<in> set cs" "0 \<in> set c" by auto
  then obtain i where i: "i < length cs" "cs ! i = c" by (auto simp: in_set_conv_nth)
  from buckets_ok_get [OF assms i(1)] i(2) obtain h where "chain (items st) h c" by auto
  from chain_zero_notin [OF this] c(2) show False by simp
qed

lemma inv_nonzero:
  assumes inv: "table_inv hash st pcs ocs"
  shows "0 \<notin> set (concat (pcs @ ocs))"
proof -
  note basics = table_invD [OF inv]
  have p: "0 \<notin> set (concat pcs)" using basics(4) by (rule buckets_ok_nonzero)
  have o: "0 \<notin> set (concat ocs)"
  proof (cases "expanding st")
    case True
    from exp_invD(6) [OF basics(8) [OF True]] show ?thesis by (rule buckets_ok_nonzero)
  next
    case False
    from basics(9) [OF False] show ?thesis by simp
  qed
  from p o show ?thesis by simp
qed

text \<open>What \<open>assoc_find\<close> returns in a well-formed table.\<close>

lemma find_iff:
  assumes inv: "table_inv hash st pcs ocs"
  shows "(assoc_find st key (hash key) = Some r) =
         ((r \<in> set (concat (pcs @ ocs)) \<and> ITEM_key (items st r) = key)
          \<or> (r = 0 \<and> (\<forall>q \<in> set (concat (pcs @ ocs)). ITEM_key (items st q) \<noteq> key)))"
proof (cases "\<exists>q \<in> set (concat (pcs @ ocs)). ITEM_key (items st q) = key")
  case True
  then obtain q where q: "q \<in> set (concat (pcs @ ocs))" "ITEM_key (items st q) = key" by blast
  from assoc_find_member [OF inv q(1)] q(2)
  have f: "assoc_find st key (hash key) = Some q" by simp
  have "r \<in> set (concat (pcs @ ocs)) \<and> ITEM_key (items st r) = key \<longleftrightarrow> r = q"
    using inv_keys_inj [OF inv] q by (auto dest: inj_onD)
  with f True show ?thesis by auto
next
  case False
  then have "\<And>q. q \<in> set (concat (pcs @ ocs)) \<Longrightarrow> ITEM_key (items st q) \<noteq> key" by blast
  from assoc_find_absent [OF inv this]
  have "assoc_find st key (hash key) = Some 0" .
  with False show ?thesis by auto
qed

lemma find_total:
  assumes inv: "table_inv hash st pcs ocs"
  shows "assoc_find st key (hash key) = Some (lookup hash st key)"
  using assoc_find_the_chain [OF inv, of key "hash key"] by (simp add: lookup_def)

text \<open>How the answers of \<open>assoc_find\<close> change when the set of items in the chains
  changes and the keys stay.\<close>

lemma lookup_same:
  assumes inv: "table_inv hash st pcs ocs" and inv': "table_inv hash st' pcs' ocs'"
    and keys: "(\<lambda>q. ITEM_key (items st' q)) = (\<lambda>q. ITEM_key (items st q))"
    and S: "set (concat (pcs' @ ocs')) = set (concat (pcs @ ocs))"
  shows "lookup hash st' key = lookup hash st key"
proof -
  have k: "\<And>q. ITEM_key (items st' q) = ITEM_key (items st q)" using fun_cong [OF keys] .
  from find_total [OF inv, of key] find_iff [OF inv, of key "lookup hash st key"]
  have "(lookup hash st key \<in> set (concat (pcs @ ocs))
          \<and> ITEM_key (items st (lookup hash st key)) = key)
        \<or> (lookup hash st key = 0
          \<and> (\<forall>q \<in> set (concat (pcs @ ocs)). ITEM_key (items st q) \<noteq> key))" by simp
  then have "assoc_find st' key (hash key) = Some (lookup hash st key)"
    unfolding find_iff [OF inv'] S k .
  with find_total [OF inv', of key] show ?thesis by simp
qed

lemma lookup_insert:
  assumes inv: "table_inv hash st pcs ocs" and inv': "table_inv hash st' pcs' ocs'"
    and keys: "(\<lambda>q. ITEM_key (items st' q)) = (\<lambda>q. ITEM_key (items st q))"
    and S: "set (concat (pcs' @ ocs')) = insert p (set (concat (pcs @ ocs)))"
  shows "lookup hash st' key = ((lookup hash st)(ITEM_key (items st p) := p)) key"
proof -
  have k: "\<And>q. ITEM_key (items st' q) = ITEM_key (items st q)" using fun_cong [OF keys] .
  show ?thesis
  proof (cases "key = ITEM_key (items st p)")
    case True
    have "assoc_find st' key (hash key) = Some p"
      unfolding find_iff [OF inv'] S k using True by simp
    with find_total [OF inv', of key] True show ?thesis by simp
  next
    case False
    from find_total [OF inv, of key] find_iff [OF inv, of key "lookup hash st key"]
    have "(lookup hash st key \<in> set (concat (pcs @ ocs))
            \<and> ITEM_key (items st (lookup hash st key)) = key)
          \<or> (lookup hash st key = 0
            \<and> (\<forall>q \<in> set (concat (pcs @ ocs)). ITEM_key (items st q) \<noteq> key))" by simp
    with False have "assoc_find st' key (hash key) = Some (lookup hash st key)"
      unfolding find_iff [OF inv'] S k by auto
    with find_total [OF inv', of key] False show ?thesis by simp
  qed
qed

lemma lookup_delete:
  assumes inv: "table_inv hash st pcs ocs" and inv': "table_inv hash st' pcs' ocs'"
    and keys: "(\<lambda>q. ITEM_key (items st' q)) = (\<lambda>q. ITEM_key (items st q))"
    and S: "set (concat (pcs' @ ocs')) = set (concat (pcs @ ocs)) - {p}"
    and p: "p \<in> set (concat (pcs @ ocs))"
  shows "lookup hash st' key = ((lookup hash st)(ITEM_key (items st p) := 0)) key"
proof -
  have k: "\<And>q. ITEM_key (items st' q) = ITEM_key (items st q)" using fun_cong [OF keys] .
  have inj: "\<And>q. q \<in> set (concat (pcs @ ocs)) \<Longrightarrow>
                 ITEM_key (items st q) = ITEM_key (items st p) \<Longrightarrow> q = p"
    using inv_keys_inj [OF inv] p by (auto dest: inj_onD)
  show ?thesis
  proof (cases "key = ITEM_key (items st p)")
    case True
    have "assoc_find st' key (hash key) = Some 0"
      unfolding find_iff [OF inv'] S k using True inj by auto
    with find_total [OF inv', of key] True show ?thesis by simp
  next
    case False
    from find_total [OF inv, of key] find_iff [OF inv, of key "lookup hash st key"]
    have "(lookup hash st key \<in> set (concat (pcs @ ocs))
            \<and> ITEM_key (items st (lookup hash st key)) = key)
          \<or> (lookup hash st key = 0
            \<and> (\<forall>q \<in> set (concat (pcs @ ocs)). ITEM_key (items st q) \<noteq> key))" by simp
    with False have "assoc_find st' key (hash key) = Some (lookup hash st key)"
      unfolding find_iff [OF inv'] S k by auto
    with find_total [OF inv', of key] False show ?thesis by simp
  qed
qed


lemma set_insert_chains:
  assumes inv: "table_inv hash st pcs ocs"
  shows "set (concat (fst (insert_chains st hv p pcs ocs) @ snd (insert_chains st hv p pcs ocs)))
         = insert p (set (concat (pcs @ ocs)))"
proof (cases "in_old st hv")
  case True
  note basics = table_invD [OF inv]
  from True have "expanding st" by (simp add: in_old_def)
  then have "unat hv mod 2 ^ (hashpower st - 1) < length ocs"
    using exp_invD(5) [OF basics(8)] by simp
  then have "set (concat (push ocs (unat hv mod 2 ^ (hashpower st - 1)) p))
             = insert p (set (concat ocs))"
    by (rule set_concat_push2)
  with True show ?thesis by (simp add: insert_chains_def)
next
  case False
  note basics = table_invD [OF inv]
  have "unat hv mod 2 ^ hashpower st < length pcs" using basics(3) by simp
  then have "set (concat (push pcs (unat hv mod 2 ^ hashpower st) p))
             = insert p (set (concat pcs))"
    by (rule set_concat_push2)
  with False show ?thesis by (simp add: insert_chains_def)
qed

lemma step_insert:
  assumes inv: "table_inv hash st pcs ocs" and al: "allowed hash (Insert p) st"
  shows "\<exists>st' pcs' ocs'. step hash trylock (Insert p) st = Some st'
      \<and> table_inv hash st' pcs' ocs'
      \<and> (\<lambda>q. ITEM_key (items st' q)) = (\<lambda>q. ITEM_key (items st q))
      \<and> lookup hash st' = spec_step (\<lambda>q. ITEM_key (items st q)) (Insert p) (lookup hash st)"
proof -
  let ?k = "ITEM_key (items st p)"
  from al have p0: "p \<noteq> 0" and f: "assoc_find st ?k (hash ?k) = Some 0"
    by (simp_all add: allowed_def)
  from f inv_nonzero [OF inv] have new: "\<forall>q \<in> set (concat (pcs @ ocs)). ITEM_key (items st q) \<noteq> ?k"
    unfolding find_iff [OF inv] by blast
  then have newkey: "?k \<notin> (\<lambda>q. ITEM_key (items st q)) ` set (concat (pcs @ ocs))" by auto
  from new have fresh: "p \<notin> set (concat (pcs @ ocs))" by blast
  from insert_inv [OF inv p0 fresh newkey refl]
  obtain st' where ins: "assoc_insert st p (hash ?k) = Some st'"
    and inv': "table_inv hash st' (fst (insert_chains st (hash ?k) p pcs ocs))
                 (snd (insert_chains st (hash ?k) p pcs ocs))"
    and keys: "(\<lambda>q. ITEM_key (items st' q)) = (\<lambda>q. ITEM_key (items st q))"
    by blast
  have "lookup hash st' = (lookup hash st)(?k := p)"
    by (rule ext) (rule lookup_insert [OF inv inv' keys set_insert_chains [OF inv]])
  with ins inv' keys show ?thesis by (auto simp: step_def)
qed

lemma step_delete:
  assumes inv: "table_inv hash st pcs ocs" and al: "allowed hash (Delete key) st"
  shows "\<exists>st' pcs' ocs'. step hash trylock (Delete key) st = Some st'
      \<and> table_inv hash st' pcs' ocs'
      \<and> (\<lambda>q. ITEM_key (items st' q)) = (\<lambda>q. ITEM_key (items st q))
      \<and> lookup hash st' = spec_step (\<lambda>q. ITEM_key (items st q)) (Delete key) (lookup hash st)"
proof -
  from al obtain p where f: "assoc_find st key (hash key) = Some p" and p0: "p \<noteq> 0"
    by (auto simp: allowed_def split: option.splits)
  from f p0 have p: "p \<in> set (concat (pcs @ ocs))" and k: "ITEM_key (items st p) = key"
    unfolding find_iff [OF inv] by simp_all
  from delete_inv [OF inv p, of "hash key"] k
  obtain st' where del: "assoc_delete st key (hash key) = Some (Inr st')"
    and inv': "table_inv hash st' (map (removeAll p) pcs) (map (removeAll p) ocs)"
    and keys: "(\<lambda>q. ITEM_key (items st' q)) = (\<lambda>q. ITEM_key (items st q))"
    by auto
  have S: "set (concat (map (removeAll p) pcs @ map (removeAll p) ocs))
           = set (concat (pcs @ ocs)) - {p}"
    by (simp only: map_append [symmetric] concat_map_removeAll set_removeAll)
  have "lookup hash st' = (lookup hash st)(key := 0)"
    by (rule ext) (simp only: lookup_delete [OF inv inv' keys S p] k)
  with del inv' keys show ?thesis by (auto simp: step_def)
qed

lemma items_assoc_expand: "items (assoc_expand new st) = items st"
  by (simp add: assoc_expand_def calloc_def Let_def)

lemma step_expand:
  assumes inv: "table_inv hash st pcs ocs" and al: "allowed hash (Expand new) st"
  shows "\<exists>st' pcs' ocs'. step hash trylock (Expand new) st = Some st'
      \<and> table_inv hash st' pcs' ocs'
      \<and> (\<lambda>q. ITEM_key (items st' q)) = (\<lambda>q. ITEM_key (items st q))
      \<and> lookup hash st' = spec_step (\<lambda>q. ITEM_key (items st q)) (Expand new) (lookup hash st)"
proof -
  from al have ne: "\<not> expanding st" and hp: "hashpower st + 1 < 64"
    and nw: "new = 0 \<or> arrays st new = None" by (simp_all add: allowed_def)
  have oc: "ocs = []" using ne by (rule table_invD(9) [OF inv])
  have keys: "(\<lambda>q. ITEM_key (items (assoc_expand new st) q)) = (\<lambda>q. ITEM_key (items st q))"
    by (simp only: items_assoc_expand)
  have "\<exists>pcs' ocs'. table_inv hash (assoc_expand new st) pcs' ocs'
          \<and> set (concat (pcs' @ ocs')) = set (concat (pcs @ ocs))"
  proof (cases "new = 0")
    case True
    from expand_failure_inv [OF inv ne] True show ?thesis by blast
  next
    case False
    with nw have "new \<notin> dom (arrays st)" by auto
    from expand_inv(1) [OF inv ne False this hp, of ] oc
    have "table_inv hash (assoc_expand new st) (replicate (2 ^ (hashpower st + 1)) []) pcs"
      by simp
    moreover have "set (concat (replicate (2 ^ (hashpower st + 1)) [] @ pcs))
                   = set (concat (pcs @ ocs))"
      by (simp add: oc concat_replicate_Nil)
    ultimately show ?thesis by blast
  qed
  then obtain pcs' ocs' where inv': "table_inv hash (assoc_expand new st) pcs' ocs'"
    and S: "set (concat (pcs' @ ocs')) = set (concat (pcs @ ocs))" by blast
  have "lookup hash (assoc_expand new st) = lookup hash st"
    by (rule ext) (rule lookup_same [OF inv inv' keys S])
  with inv' keys show ?thesis by (auto simp: step_def)
qed

lemma step_move:
  assumes inv: "table_inv hash st pcs ocs" and al: "allowed hash Move st"
  shows "\<exists>st' pcs' ocs'. step hash trylock Move st = Some st'
      \<and> table_inv hash st' pcs' ocs'
      \<and> (\<lambda>q. ITEM_key (items st' q)) = (\<lambda>q. ITEM_key (items st q))
      \<and> lookup hash st' = spec_step (\<lambda>q. ITEM_key (items st q)) Move (lookup hash st)"
proof (cases "trylock (expand_bucket st)")
  case True
  from al have e: "expanding st" by (simp add: allowed_def)
  from maintenance_move_inv [OF inv e, of trylock, OF True]
  obtain st' where mv: "maintenance_move hash trylock st = Some st'"
    and inv': "table_inv hash st' (migrated_pcs hash st pcs ocs) (migrated_ocs st ocs)"
    and keys: "(\<lambda>q. ITEM_key (items st' q)) = (\<lambda>q. ITEM_key (items st q))"
    and m: "mset (concat (migrated_pcs hash st pcs ocs @ migrated_ocs st ocs))
            = mset (concat (pcs @ ocs))"
    by blast
  from m have S: "set (concat (migrated_pcs hash st pcs ocs @ migrated_ocs st ocs))
                  = set (concat (pcs @ ocs))" by (rule mset_eq_setD)
  have "lookup hash st' = lookup hash st"
    by (rule ext) (rule lookup_same [OF inv inv' keys S])
  with mv inv' keys show ?thesis by (auto simp: step_def)
next
  case False
  then have "maintenance_move hash trylock st = Some st" by (simp add: maintenance_move_def)
  with inv show ?thesis by (auto simp: step_def)
qed

lemma step_refines:
  assumes inv: "table_inv hash st pcs ocs" and al: "allowed hash c st"
  shows "\<exists>st' pcs' ocs'. step hash trylock c st = Some st'
      \<and> table_inv hash st' pcs' ocs'
      \<and> (\<lambda>q. ITEM_key (items st' q)) = (\<lambda>q. ITEM_key (items st q))
      \<and> lookup hash st' = spec_step (\<lambda>q. ITEM_key (items st q)) c (lookup hash st)"
proof (cases c)
  case (Insert p)
  with step_insert [OF inv, of p trylock] al show ?thesis by simp
next
  case (Delete key)
  with step_delete [OF inv, of key trylock] al show ?thesis by simp
next
  case (Expand new)
  with step_expand [OF inv, of new trylock] al show ?thesis by simp
next
  case Move
  with step_move [OF inv, of trylock] al show ?thesis by simp
qed

lemma run_refines:
  assumes "table_inv hash st pcs ocs" "allowed_run hash trylock cs st"
  shows "\<exists>st' pcs' ocs'. run hash trylock cs st = Some st'
      \<and> table_inv hash st' pcs' ocs'
      \<and> (\<lambda>q. ITEM_key (items st' q)) = (\<lambda>q. ITEM_key (items st q))
      \<and> lookup hash st' = fold (spec_step (\<lambda>q. ITEM_key (items st q))) cs (lookup hash st)"
  using assms
proof (induction cs arbitrary: st pcs ocs)
  case Nil
  then show ?case by auto
next
  case (Cons c cs)
  from Cons.prems(2) have al: "allowed hash c st" by simp
  from step_refines [OF Cons.prems(1) al, of trylock]
  obtain st1 pcs1 ocs1 where s: "step hash trylock c st = Some st1"
    and inv1: "table_inv hash st1 pcs1 ocs1"
    and keys1: "(\<lambda>q. ITEM_key (items st1 q)) = (\<lambda>q. ITEM_key (items st q))"
    and l1: "lookup hash st1 = spec_step (\<lambda>q. ITEM_key (items st q)) c (lookup hash st)"
    by blast
  from Cons.prems(2) s have al1: "allowed_run hash trylock cs st1" by simp
  from Cons.IH [OF inv1 al1]
  obtain st' pcs' ocs' where r: "run hash trylock cs st1 = Some st'"
    and inv': "table_inv hash st' pcs' ocs'"
    and keys': "(\<lambda>q. ITEM_key (items st' q)) = (\<lambda>q. ITEM_key (items st1 q))"
    and l': "lookup hash st' = fold (spec_step (\<lambda>q. ITEM_key (items st1 q))) cs (lookup hash st1)"
    by blast
  from r s have "run hash trylock (c # cs) st = Some st'" by simp
  moreover from keys' keys1
  have "(\<lambda>q. ITEM_key (items st' q)) = (\<lambda>q. ITEM_key (items st q))" by simp
  moreover from l' l1 keys1
  have "lookup hash st' = fold (spec_step (\<lambda>q. ITEM_key (items st q))) (c # cs) (lookup hash st)"
    by simp
  ultimately show ?case using inv' by blast
qed

lemma lookup_Some:
  "table_inv hash st pcs ocs \<Longrightarrow> lookup hash st key = p \<Longrightarrow> assoc_find st key (hash key) = Some p"
  using find_total by blast

lemma persist:
  assumes "table_inv hash st pcs ocs" "allowed_run hash trylock cs st"
    "Delete K \<notin> set cs" "lookup hash st K = p" "p \<noteq> 0"
  shows "\<exists>st' pcs' ocs'. run hash trylock cs st = Some st' \<and> table_inv hash st' pcs' ocs'
           \<and> lookup hash st' K = p"
  using assms
proof (induction cs arbitrary: st pcs ocs)
  case Nil
  then show ?case by auto
next
  case (Cons c cs)
  from Cons.prems(2) have al: "allowed hash c st" by simp
  from step_refines [OF Cons.prems(1) al, of trylock]
  obtain st1 pcs1 ocs1 where s: "step hash trylock c st = Some st1"
    and inv1: "table_inv hash st1 pcs1 ocs1"
    and l1: "lookup hash st1 = spec_step (\<lambda>q. ITEM_key (items st q)) c (lookup hash st)"
    by blast
  from Cons.prems(2) s have al1: "allowed_run hash trylock cs st1" by simp
  have "lookup hash st1 K = p"
  proof (cases c)
    case (Insert q)
    with al have "assoc_find st (ITEM_key (items st q)) (hash (ITEM_key (items st q))) = Some 0"
      by (simp add: allowed_def)
    then have "lookup hash st (ITEM_key (items st q)) = 0" by (simp add: lookup_def)
    with Cons.prems(4,5) have "ITEM_key (items st q) \<noteq> K" by auto
    with Insert l1 Cons.prems(4) show ?thesis by simp
  next
    case (Delete k)
    with Cons.prems(3) have "k \<noteq> K" by auto
    with Delete l1 Cons.prems(4) show ?thesis by simp
  next
    case (Expand new)
    with l1 Cons.prems(4) show ?thesis by simp
  next
    case Move
    with l1 Cons.prems(4) show ?thesis by simp
  qed
  from Cons.IH [OF inv1 al1 _ this Cons.prems(5)] Cons.prems(3)
  obtain st' pcs' ocs' where "run hash trylock cs st1 = Some st'"
    "table_inv hash st' pcs' ocs'" "lookup hash st' K = p" by auto
  with s show ?case by auto
qed

lemma stays_absent:
  assumes "table_inv hash st pcs ocs" "allowed_run hash trylock cs st"
    "\<forall>q. Insert q \<in> set cs \<longrightarrow> ITEM_key (items st q) \<noteq> K" "lookup hash st K = 0"
  shows "\<exists>st' pcs' ocs'. run hash trylock cs st = Some st' \<and> table_inv hash st' pcs' ocs'
           \<and> lookup hash st' K = 0"
  using assms
proof (induction cs arbitrary: st pcs ocs)
  case Nil
  then show ?case by auto
next
  case (Cons c cs)
  from Cons.prems(2) have al: "allowed hash c st" by simp
  from step_refines [OF Cons.prems(1) al, of trylock]
  obtain st1 pcs1 ocs1 where s: "step hash trylock c st = Some st1"
    and inv1: "table_inv hash st1 pcs1 ocs1"
    and keys1: "(\<lambda>q. ITEM_key (items st1 q)) = (\<lambda>q. ITEM_key (items st q))"
    and l1: "lookup hash st1 = spec_step (\<lambda>q. ITEM_key (items st q)) c (lookup hash st)"
    by blast
  from Cons.prems(2) s have al1: "allowed_run hash trylock cs st1" by simp
  have k: "\<And>q. ITEM_key (items st1 q) = ITEM_key (items st q)" using fun_cong [OF keys1] .
  have "lookup hash st1 K = 0"
  proof (cases c)
    case (Insert q)
    with Cons.prems(3) have "ITEM_key (items st q) \<noteq> K" by simp
    with Insert l1 Cons.prems(4) show ?thesis by simp
  next
    case (Delete k)
    with l1 Cons.prems(4) show ?thesis by simp
  next
    case (Expand new)
    with l1 Cons.prems(4) show ?thesis by simp
  next
    case Move
    with l1 Cons.prems(4) show ?thesis by simp
  qed
  moreover from Cons.prems(3) have "\<forall>q. Insert q \<in> set cs \<longrightarrow> ITEM_key (items st1 q) \<noteq> K"
    by (simp add: k)
  ultimately obtain st' pcs' ocs' where "run hash trylock cs st1 = Some st'"
    "table_inv hash st' pcs' ocs'" "lookup hash st' K = 0"
    using Cons.IH [OF inv1 al1] by blast
  with s show ?case by auto
qed

lemma lookup_init:
  assumes "assoc_init hashtable_init new (initial_state d mem) = Inr st" "hashpower st < 64"
  shows "lookup hash st = (\<lambda>key. 0)"
proof
  fix key
  note i = init_inv(1) [OF assms, of hash]
  have "assoc_find st key (hash key) = Some 0"
    unfolding find_iff [OF i] by (simp add: concat_replicate_Nil)
  then show "lookup hash st key = 0" by (simp add: lookup_def)
qed

lemma init_lock:
  "assoc_init hashtable_init new (initial_state d mem) = Inr st \<Longrightarrow> \<not> maintenance_lock st"
  by (auto simp: assoc_init_def Let_def calloc_def initial_state_def split: if_splits)

lemma live_iff:
  assumes inv: "table_inv hash st pcs ocs"
  shows "q \<in> set (concat (pcs @ ocs)) \<longleftrightarrow>
         q \<noteq> 0 \<and> assoc_find st (ITEM_key (items st q)) (hash (ITEM_key (items st q))) = Some q"
proof
  assume q: "q \<in> set (concat (pcs @ ocs))"
  with inv_nonzero [OF inv] have "q \<noteq> 0" by metis
  with assoc_find_member [OF inv q]
  show "q \<noteq> 0 \<and> assoc_find st (ITEM_key (items st q)) (hash (ITEM_key (items st q))) = Some q"
    by simp
next
  assume "q \<noteq> 0 \<and> assoc_find st (ITEM_key (items st q)) (hash (ITEM_key (items st q))) = Some q"
  then show "q \<in> set (concat (pcs @ ocs))" unfolding find_iff [OF inv] by blast
qed

section \<open>The order of the chains\<close>

lemma moved_nth:
  "b < length pcs \<Longrightarrow>
   moved hash mem n ps pcs ! b
     = rev (filter (\<lambda>p. unat (hash (ITEM_key (mem p))) mod 2 ^ n = b) ps) @ pcs ! b"
  by (induction ps arbitrary: pcs) (auto simp: moved_Cons nth_push)

lemma iterate_stable:
  assumes inv: "table_inv hash st pcs ocs" and ne: "\<not> expanding st"
    and free: "\<not> maintenance_lock st"
  shows "\<exists>iter st'. assoc_get_iterator True st = Some (Some iter, st')
            \<and> iterate_all st' iter = Some (concat pcs)"
proof -
  note basics = table_invD [OF inv]
  let ?iter = "\<lparr>iter_bucket = 0, iter_it = 0, iter_next = 0, bucket_locked = False\<rparr>"
  let ?st = "st\<lparr>maintenance_lock := True\<rparr>"
  have g: "assoc_get_iterator True st = Some (Some ?iter, ?st)"
    using free by (simp add: assoc_get_iterator_def)
  have "buckets_ok ?st (primary_hashtable st) pcs"
    using basics(4) by (rule buckets_ok_same) simp_all
  then have ok: "buckets_ok ?st (primary_hashtable ?st) pcs" by simp
  have "iterate_all ?st ?iter = Some (concat (drop 0 pcs))"
    by (rule iterate_all_unlocked [OF _ _ ok]) (use basics(1,3) in simp_all)
  with g show ?thesis by simp
qed

text \<open>Without an expansion, every chain holds the live items of its bucket, the one
  inserted last first.\<close>

lemma step_order:
  assumes inv: "table_inv hash st pcs []" and ne: "\<not> expanding st"
    and al: "allowed hash c st" and up: "updates_only [c]"
    and L: "\<forall>b < length pcs. pcs ! b
              = filter (\<lambda>p. unat (hash (ITEM_key (items st p))) mod 2 ^ hashpower st = b) L"
  shows "\<exists>st' pcs'. step hash trylock c st = Some st' \<and> table_inv hash st' pcs' []
      \<and> \<not> expanding st' \<and> hashpower st' = hashpower st
      \<and> maintenance_lock st' = maintenance_lock st
      \<and> (\<lambda>q. ITEM_key (items st' q)) = (\<lambda>q. ITEM_key (items st q))
      \<and> (\<forall>b < length pcs'. pcs' ! b
            = filter (\<lambda>p. unat (hash (ITEM_key (items st p))) mod 2 ^ hashpower st = b)
                (live_step (\<lambda>q. ITEM_key (items st q)) c L))"
proof (cases c)
  case (Insert p)
  let ?k = "ITEM_key (items st p)"
  from al Insert have p0: "p \<noteq> 0" and f: "assoc_find st ?k (hash ?k) = Some 0"
    by (simp_all add: allowed_def)
  from f inv_nonzero [OF inv] have new: "\<forall>q \<in> set (concat (pcs @ [])). ITEM_key (items st q) \<noteq> ?k"
    unfolding find_iff [OF inv] by blast
  have newkey: "?k \<notin> (\<lambda>q. ITEM_key (items st q)) ` set (concat (pcs @ []))"
  proof
    assume "?k \<in> (\<lambda>q. ITEM_key (items st q)) ` set (concat (pcs @ []))"
    then obtain q where "q \<in> set (concat (pcs @ []))" "?k = ITEM_key (items st q)"
      by (rule imageE)
    with new show False by metis
  qed
  from new have fresh: "p \<notin> set (concat (pcs @ []))" by blast
  have io: "\<not> in_old st (hash ?k)" using ne by (simp add: in_old_def)
  let ?i = "unat (hash ?k) mod 2 ^ hashpower st"
  from insert_inv [OF inv p0 fresh newkey refl] io
  obtain st' where ins: "assoc_insert st p (hash ?k) = Some st'"
    and inv': "table_inv hash st' (push pcs ?i p) []"
    and keys: "(\<lambda>q. ITEM_key (items st' q)) = (\<lambda>q. ITEM_key (items st q))"
    and sc: "hashpower st' = hashpower st" "expanding st' = expanding st"
      "maintenance_lock st' = maintenance_lock st"
    by (auto simp: insert_chains_def)
  have "\<forall>b < length (push pcs ?i p). push pcs ?i p ! b
            = filter (\<lambda>p. unat (hash (ITEM_key (items st p))) mod 2 ^ hashpower st = b) (p # L)"
    using L table_invD(3) [OF inv] by (auto simp: nth_push)
  with ins inv' keys sc ne Insert show ?thesis by (auto simp: step_def)
next
  case (Delete key)
  from al Delete obtain p where f: "assoc_find st key (hash key) = Some p" and p0: "p \<noteq> 0"
    by (auto simp: allowed_def split: option.splits)
  from f p0 have p: "p \<in> set (concat (pcs @ []))" and k: "ITEM_key (items st p) = key"
    unfolding find_iff [OF inv] by simp_all
  from delete_inv [OF inv p, of "hash key"] k
  obtain st' where del: "assoc_delete st key (hash key) = Some (Inr st')"
    and inv': "table_inv hash st' (map (removeAll p) pcs) []"
    and keys: "(\<lambda>q. ITEM_key (items st' q)) = (\<lambda>q. ITEM_key (items st q))"
    and sc: "hashpower st' = hashpower st" "expanding st' = expanding st"
      "maintenance_lock st' = maintenance_lock st"
    by auto
  have inj: "\<And>q. q \<in> set (concat pcs) \<Longrightarrow> (ITEM_key (items st q) \<noteq> key) = (q \<noteq> p)"
    using inv_keys_inj [OF inv] p k by (auto dest: inj_onD)
  have "\<forall>b < length (map (removeAll p) pcs). map (removeAll p) pcs ! b
            = filter (\<lambda>p. unat (hash (ITEM_key (items st p))) mod 2 ^ hashpower st = b)
                (filter (\<lambda>q. ITEM_key (items st q) \<noteq> key) L)"
  proof (intro allI impI)
    fix b assume b: "b < length (map (removeAll p) pcs)"
    let ?P = "\<lambda>p. unat (hash (ITEM_key (items st p))) mod 2 ^ hashpower st = b"
    from b L have e: "pcs ! b = filter ?P L" by simp
    from b have "pcs ! b \<in> set pcs" by simp
    then have sub: "set (pcs ! b) \<subseteq> set (concat pcs)" by auto
    have "removeAll p (pcs ! b) = filter (\<lambda>q. p \<noteq> q) (pcs ! b)"
      by (simp add: removeAll_filter_not_eq)
    also have "\<dots> = filter (\<lambda>q. ITEM_key (items st q) \<noteq> key) (pcs ! b)"
      using sub inj by (intro filter_cong) auto
    also have "\<dots> = filter ?P (filter (\<lambda>q. ITEM_key (items st q) \<noteq> key) L)"
      unfolding e by (simp add: conj_commute)
    finally show "map (removeAll p) pcs ! b
        = filter ?P (filter (\<lambda>q. ITEM_key (items st q) \<noteq> key) L)"
      using b by simp
  qed
  with del inv' keys sc ne Delete show ?thesis
    by (intro exI [of _ st'] exI [of _ "map (removeAll p) pcs"]) (simp add: step_def)
next
  case (Expand new)
  with up show ?thesis by (simp add: updates_only_def)
next
  case Move
  with up show ?thesis by (simp add: updates_only_def)
qed

lemma run_order:
  assumes "table_inv hash st pcs []" "\<not> expanding st"
    "allowed_run hash trylock cs st" "updates_only cs"
    "\<forall>b < length pcs. pcs ! b
       = filter (\<lambda>p. unat (hash (ITEM_key (items st p))) mod 2 ^ hashpower st = b) L"
  shows "\<exists>st' pcs'. run hash trylock cs st = Some st' \<and> table_inv hash st' pcs' []
      \<and> \<not> expanding st' \<and> hashpower st' = hashpower st
      \<and> maintenance_lock st' = maintenance_lock st
      \<and> (\<lambda>q. ITEM_key (items st' q)) = (\<lambda>q. ITEM_key (items st q))
      \<and> (\<forall>b < length pcs'. pcs' ! b
            = filter (\<lambda>p. unat (hash (ITEM_key (items st p))) mod 2 ^ hashpower st = b)
                (fold (live_step (\<lambda>q. ITEM_key (items st q))) cs L))"
  using assms
proof (induction cs arbitrary: st pcs L)
  case Nil
  then show ?case by auto
next
  case (Cons c cs)
  from Cons.prems(3) have al: "allowed hash c st" by simp
  from Cons.prems(4) have up: "updates_only [c]" "updates_only cs"
    by (simp_all add: updates_only_def)
  from step_order [OF Cons.prems(1,2) al up(1) Cons.prems(5), of trylock]
  obtain st1 pcs1 where s: "step hash trylock c st = Some st1"
    and inv1: "table_inv hash st1 pcs1 []" and ne1: "\<not> expanding st1"
    and sc: "hashpower st1 = hashpower st" "maintenance_lock st1 = maintenance_lock st"
    and keys1: "(\<lambda>q. ITEM_key (items st1 q)) = (\<lambda>q. ITEM_key (items st q))"
    and L1: "\<forall>b < length pcs1. pcs1 ! b
            = filter (\<lambda>p. unat (hash (ITEM_key (items st p))) mod 2 ^ hashpower st = b)
                (live_step (\<lambda>q. ITEM_key (items st q)) c L)"
    by blast
  have k: "\<And>q. ITEM_key (items st1 q) = ITEM_key (items st q)" using fun_cong [OF keys1] .
  from Cons.prems(3) s have al1: "allowed_run hash trylock cs st1" by simp
  from L1 have L1': "\<forall>b < length pcs1. pcs1 ! b
            = filter (\<lambda>p. unat (hash (ITEM_key (items st1 p))) mod 2 ^ hashpower st1 = b)
                (live_step (\<lambda>q. ITEM_key (items st q)) c L)"
    by (simp add: k sc)
  from Cons.IH [OF inv1 ne1 al1 up(2) L1']
  obtain st' pcs' where "run hash trylock cs st1 = Some st'" "table_inv hash st' pcs' []"
    "\<not> expanding st'" "hashpower st' = hashpower st1"
    "maintenance_lock st' = maintenance_lock st1"
    "(\<lambda>q. ITEM_key (items st' q)) = (\<lambda>q. ITEM_key (items st1 q))"
    "\<forall>b < length pcs'. pcs' ! b
            = filter (\<lambda>p. unat (hash (ITEM_key (items st1 p))) mod 2 ^ hashpower st1 = b)
                (fold (live_step (\<lambda>q. ITEM_key (items st1 q))) cs
                   (live_step (\<lambda>q. ITEM_key (items st q)) c L))"
    by blast
  with s sc keys1 show ?case
    by (intro exI [of _ st'] exI [of _ pcs']) (simp add: k)
qed

lemma chains_recent_first:
  assumes "length pcs = 2 ^ n"
    "\<forall>b < length pcs. pcs ! b = filter (\<lambda>p. unat (hash (kf p)) mod 2 ^ n = b) L"
  shows "concat pcs = recent_first hash kf n L"
proof -
  have "pcs = map (\<lambda>b. filter (\<lambda>p. unat (hash (kf p)) mod 2 ^ n = b) L) [0..<2 ^ n]"
    using assms by (intro nth_equalityI) simp_all
  then show ?thesis by (simp add: recent_first_def)
qed

lemma move_order:
  assumes inv: "table_inv hash st pcs ocs" and e: "expanding st"
    and hm: "half_moved hash (\<lambda>q. ITEM_key (items st q)) (hashpower st) (expand_bucket st)
               pcs0 pcs ocs"
  shows "half_moved hash (\<lambda>q. ITEM_key (items st q)) (hashpower st) (expand_bucket st + 1)
           pcs0 (migrated_pcs hash st pcs ocs) (migrated_ocs st ocs)"
proof -
  note basics = table_invD [OF inv]
  note x = exp_invD [OF basics(8) [OF e]]
  let ?n = "hashpower st" and ?c = "expand_bucket st"
  let ?kf = "\<lambda>q. ITEM_key (items st q)"
  let ?R = "\<lambda>b. rev (filter (\<lambda>p. unat (hash (?kf p)) mod 2 ^ ?n = b) (pcs0 ! (b mod 2 ^ (?n - 1))))"
  from hm have P: "\<And>b::nat. b < 2 ^ ?n \<Longrightarrow> pcs ! b = (if b mod 2 ^ (?n - 1) < ?c then ?R b else [])"
    and O: "\<And>j. ?c \<le> j \<Longrightarrow> j < 2 ^ (?n - 1) \<Longrightarrow> ocs ! j = pcs0 ! j"
    unfolding half_moved_def by blast+
  have oc: "ocs ! ?c = pcs0 ! ?c" using O [of ?c] x(4) by simp
  have pl: "\<And>p. p \<in> set (ocs ! ?c) \<Longrightarrow> unat (hash (?kf p)) mod 2 ^ (?n - 1) = ?c"
    using x(7) x(4,5) unfolding placed_def by simp
  have "\<forall>b < 2 ^ ?n. migrated_pcs hash st pcs ocs ! b =
        (if b mod 2 ^ (?n - 1) < ?c + 1 then ?R b else [])"
  proof (intro allI impI)
    fix b :: nat assume b: "b < 2 ^ ?n"
    then have bl: "b < length pcs" using basics(3) by simp
    have m: "migrated_pcs hash st pcs ocs ! b
        = rev (filter (\<lambda>p. unat (hash (?kf p)) mod 2 ^ ?n = b) (ocs ! ?c)) @ pcs ! b"
      unfolding migrated_pcs_def by (rule moved_nth [OF bl])
    show "migrated_pcs hash st pcs ocs ! b =
        (if b mod 2 ^ (?n - 1) < ?c + 1 then ?R b else [])"
    proof (cases "b mod 2 ^ (?n - 1) = ?c")
      case True
      then have "pcs ! b = []" using P [OF b] by simp
      with m True oc show ?thesis by simp
    next
      case False
      have "filter (\<lambda>p. unat (hash (?kf p)) mod 2 ^ ?n = b) (ocs ! ?c) = []"
      proof -
        have "\<And>p. p \<in> set (ocs ! ?c) \<Longrightarrow> unat (hash (?kf p)) mod 2 ^ ?n \<noteq> b"
        proof
          fix p assume p: "p \<in> set (ocs ! ?c)" and "unat (hash (?kf p)) mod 2 ^ ?n = b"
          then have "b mod 2 ^ (?n - 1) = unat (hash (?kf p)) mod 2 ^ (?n - 1)"
            using mod_pow_pred [of "unat (hash (?kf p))" ?n] by simp
          with pl [OF p] False show False by simp
        qed
        then show ?thesis by (simp add: filter_empty_conv)
      qed
      with m have "migrated_pcs hash st pcs ocs ! b = pcs ! b" by simp
      with P [OF b] False show ?thesis by auto
    qed
  qed
  moreover have "\<forall>j. ?c + 1 \<le> j \<and> j < 2 ^ (?n - 1) \<longrightarrow> migrated_ocs st ocs ! j = pcs0 ! j"
  proof (intro allI impI)
    fix j :: nat assume j: "?c + 1 \<le> j \<and> j < 2 ^ (?n - 1)"
    then have "?c + 1 \<noteq> 2 ^ (?n - 1)" by simp
    then have "migrated_ocs st ocs ! j = ocs ! j" using j by (simp add: migrated_ocs_def)
    with O [of j] j show "migrated_ocs st ocs ! j = pcs0 ! j" by simp
  qed
  ultimately show ?thesis unfolding half_moved_def by blast
qed

lemma bulk_move_loop_order:
  assumes "table_inv hash st pcs ocs" "\<forall>b. trylock b"
    "half_moved hash (\<lambda>q. ITEM_key (items st q)) (hashpower st) (cursor st) pcs0 pcs ocs"
  shows "\<exists>st' pcs' ocs'. bulk_move_loop hash trylock bulk ii st = Some st'
      \<and> table_inv hash st' pcs' ocs'
      \<and> carried st (pcs @ ocs) st' (pcs' @ ocs')
      \<and> remaining st' \<le> remaining st
      \<and> (ii < bulk \<and> expanding st \<longrightarrow> remaining st' < remaining st)
      \<and> half_moved hash (\<lambda>q. ITEM_key (items st q)) (hashpower st) (cursor st') pcs0 pcs' ocs'"
  using assms
proof (induction hash trylock bulk ii st arbitrary: pcs ocs rule: bulk_move_loop.induct)
  case (1 hash trylock bulk ii st)
  show ?case
  proof (cases "ii < bulk \<and> expanding st")
    case False
    then have "bulk_move_loop hash trylock bulk ii st = Some st"
      by (subst bulk_move_loop.simps) auto
    with "1.prems"(1,3) False carried_refl show ?thesis by blast
  next
    case True
    then have e: "expanding st" by simp
    from "1.prems"(2) have lk: "trylock (expand_bucket st)" by simp
    from maintenance_move_inv [of hash st pcs ocs trylock, OF "1.prems"(1) e lk] obtain st1 where
      mm: "maintenance_move hash trylock st = Some st1"
      and inv1: "table_inv hash st1 (migrated_pcs hash st pcs ocs) (migrated_ocs st ocs)"
      and pr: "expanding st1 = (expand_bucket st + 1 \<noteq> 2 ^ (hashpower st - 1))"
        "expand_bucket st1 = expand_bucket st + 1" "hashpower st1 = hashpower st"
      and keys: "(\<lambda>q. ITEM_key (items st1 q)) = (\<lambda>q. ITEM_key (items st q))"
      and ca: "carried st (pcs @ ocs) st1 (migrated_pcs hash st pcs ocs @ migrated_ocs st ocs)"
      unfolding carried_def by blast
    have c1: "cursor st1 = expand_bucket st + 1" using pr by (auto simp: cursor_def)
    from "1.prems"(3) e
    have "half_moved hash (\<lambda>q. ITEM_key (items st q)) (hashpower st) (expand_bucket st)
            pcs0 pcs ocs" by (simp add: cursor_def)
    from move_order [OF "1.prems"(1) e this]
    have hm1: "half_moved hash (\<lambda>q. ITEM_key (items st1 q)) (hashpower st1) (cursor st1)
            pcs0 (migrated_pcs hash st pcs ocs) (migrated_ocs st ocs)"
      by (simp only: keys pr c1)
    from "1.IH" [OF True mm inv1 "1.prems"(2) hm1] obtain st' pcs' ocs' where
      r: "bulk_move_loop hash trylock bulk (ii + 1) st1 = Some st'"
      and inv': "table_inv hash st' pcs' ocs'"
      and ca': "carried st1 (migrated_pcs hash st pcs ocs @ migrated_ocs st ocs) st' (pcs' @ ocs')"
      and rm: "remaining st' \<le> remaining st1"
      and hm': "half_moved hash (\<lambda>q. ITEM_key (items st1 q)) (hashpower st1) (cursor st')
                  pcs0 pcs' ocs'" by blast
    have "bulk_move_loop hash trylock bulk ii st = Some st'" using True mm r
      by (subst bulk_move_loop.simps) simp
    moreover have "remaining st1 < remaining st" using "1.prems"(1) e pr by (rule remaining_move)
    moreover from hm' have "half_moved hash (\<lambda>q. ITEM_key (items st q)) (hashpower st)
        (cursor st') pcs0 pcs' ocs'" by (simp only: keys pr)
    ultimately show ?thesis using inv' carried_trans [OF ca ca'] rm
      by (intro exI [of _ st'] exI [of _ pcs'] exI [of _ ocs']) simp
  qed
qed

lemma expansion_phase_order:
  assumes "table_inv hash st pcs ocs" "expanding st" "0 < hash_bulk_move st" "\<forall>b. trylock b"
    "half_moved hash (\<lambda>q. ITEM_key (items st q)) (hashpower st) (cursor st) pcs0 pcs ocs"
  shows "\<exists>st' pcs'. expansion_phase hash trylock st = Some st'
      \<and> table_inv hash st' pcs' [] \<and> \<not> expanding st'
      \<and> carried st (pcs @ ocs) st' pcs'
      \<and> half_moved hash (\<lambda>q. ITEM_key (items st q)) (hashpower st) (cursor st') pcs0 pcs' []"
  using assms
proof (induction "remaining st" arbitrary: st pcs ocs rule: less_induct)
  case less
  from bulk_move_loop_order [OF less.prems(1,4,5), of "hash_bulk_move st" 0] less.prems(2,3)
  obtain st1 pcs1 ocs1 where
    b: "bulk_move hash trylock st = Some st1"
    and inv1: "table_inv hash st1 pcs1 ocs1"
    and ca: "carried st (pcs @ ocs) st1 (pcs1 @ ocs1)"
    and rm: "remaining st1 < remaining st"
    and hm1: "half_moved hash (\<lambda>q. ITEM_key (items st q)) (hashpower st) (cursor st1)
                pcs0 pcs1 ocs1"
    unfolding bulk_move_def by auto
  from ca have k: "(\<lambda>q. ITEM_key (items st1 q)) = (\<lambda>q. ITEM_key (items st q))"
    and hp: "hashpower st1 = hashpower st" by (simp_all add: carried_def)
  show ?case
  proof (cases "expanding st1")
    case True
    have "0 < hash_bulk_move st1" using ca less.prems(3) by (simp add: carried_def)
    moreover from hm1 have "half_moved hash (\<lambda>q. ITEM_key (items st1 q)) (hashpower st1)
        (cursor st1) pcs0 pcs1 ocs1" by (simp only: k hp)
    ultimately obtain st' pcs' where
      "expansion_phase hash trylock st1 = Some st'" "table_inv hash st' pcs' []"
      "\<not> expanding st'" "carried st1 (pcs1 @ ocs1) st' pcs'"
      "half_moved hash (\<lambda>q. ITEM_key (items st1 q)) (hashpower st1) (cursor st') pcs0 pcs' []"
      using less.hyps [OF rm inv1 True _ less.prems(4)] by blast
    moreover from this(1) b True have "expansion_phase hash trylock st = Some st'"
      by (subst expansion_phase.simps) simp
    ultimately show ?thesis using carried_trans [OF ca] by (auto simp only: k hp)
  next
    case False
    then have "ocs1 = []" by (rule table_invD(9) [OF inv1])
    moreover from b False have "expansion_phase hash trylock st = Some st1"
      by (subst expansion_phase.simps) simp
    ultimately show ?thesis using inv1 ca False hm1 by auto
  qed
qed

lemma cycle_order:
  assumes inv: "table_inv hash st pcs ocs" and ne: "\<not> expanding st"
    and new: "new \<noteq> 0" "new \<notin> dom (arrays st)" and hp: "hashpower st + 1 < 64"
    and bulk: "0 < hash_bulk_move st" and lk: "\<forall>b. trylock b"
  shows "\<exists>st'. expansion_cycle hash trylock new st = Some st'
      \<and> \<not> expanding st' \<and> hashpower st' = hashpower st + 1
      \<and> maintenance_lock st' = maintenance_lock st
      \<and> table_inv hash st' (rehashed hash (\<lambda>q. ITEM_key (items st q)) (hashpower st) pcs) []"
proof -
  let ?st1 = "assoc_expand new st"
  let ?kf = "\<lambda>q. ITEM_key (items st q)"
  note ex = expand_inv [OF inv ne new hp]
  have oc: "ocs = []" using ne by (rule table_invD(9) [OF inv])
  have k1: "(\<lambda>q. ITEM_key (items ?st1 q)) = ?kf" by (simp only: ex(7))
  have c1: "cursor ?st1 = 0" using ex(2,3) by (simp add: cursor_def)
  have "half_moved hash ?kf (hashpower st + 1) 0 pcs (replicate (2 ^ (hashpower st + 1)) []) pcs"
    by (simp add: half_moved_def)
  then have hm: "half_moved hash (\<lambda>q. ITEM_key (items ?st1 q)) (hashpower ?st1) (cursor ?st1)
      pcs (replicate (2 ^ (hashpower st + 1)) []) pcs"
    by (simp only: k1 c1 ex(4))
  have b1: "0 < hash_bulk_move ?st1" using bulk by (simp only: ex(8))
  from expansion_phase_order [OF ex(1) ex(2) b1 lk hm]
  obtain st' pcs' where ph: "expansion_phase hash trylock ?st1 = Some st'"
    and inv': "table_inv hash st' pcs' []" and ne': "\<not> expanding st'"
    and ca: "carried ?st1 (replicate (2 ^ (hashpower st + 1)) [] @ pcs) st' pcs'"
    and hm': "half_moved hash (\<lambda>q. ITEM_key (items ?st1 q)) (hashpower ?st1) (cursor st')
                pcs pcs' []" by blast
  from ca have hp': "hashpower st' = hashpower st + 1"
    and ml: "maintenance_lock st' = maintenance_lock st"
    by (simp_all add: carried_def ex(4,9))
  have c': "cursor st' = 2 ^ hashpower st" using ne' hp' by (simp add: cursor_def)
  have len: "length pcs' = 2 ^ (hashpower st + 1)" using table_invD(3) [OF inv'] hp' by simp
  from hm' have "\<forall>b < 2 ^ (hashpower st + 1). pcs' ! b
      = rev (filter (\<lambda>p. unat (hash (?kf p)) mod 2 ^ (hashpower st + 1) = b)
               (pcs ! (b mod 2 ^ hashpower st)))"
    unfolding half_moved_def k1 ex(4) c' by simp
  with len have "pcs' = rehashed hash ?kf (hashpower st) pcs"
    unfolding rehashed_def by (intro nth_equalityI) simp_all
  moreover have "expansion_cycle hash trylock new st = Some st'"
    using ph ex(2) by (simp add: expansion_cycle_def Let_def)
  ultimately show ?thesis using inv' ne' hp' ml by simp
qed

section \<open>The example tables, call by call\<close>

lemma replicate_2: "replicate 2 (0::nat) = [0, 0]"
  by (simp add: numeral_eq_Suc)

lemma ex_init: "assoc_init 1 10 (initial_state 16 ex_mem) = Inr ex_empty"
  by (simp add: assoc_init_def initial_state_def calloc_def hashsize_def Let_def ex_empty_def replicate_2)

lemmas ex_eval = step_def allowed_def assoc_find_def assoc_find_slot_def assoc_insert_def
  assoc_insert_slot_def assoc_delete_def hashitem_before_def hashitem_before_slot_def
  link_get_def link_set_def find_loop.simps hashitem_before_loop.simps relink_loop.simps
  maintenance_move_def migrate_bucket_def expansion_done_def assoc_expand_def calloc_def
  hashmask_def hashsize_def hashpower_pred_def nkey_def memcmp_eq_def Let_def
  ex_mem_def ex_hash_def

lemma ex_two_run:
  "allowed_run ex_hash (\<lambda>b. True) [Insert 1, Insert 5] ex_empty"
  "run ex_hash (\<lambda>b. True) [Insert 1, Insert 5] ex_empty = Some ex_two"
  by (simp_all add: ex_eval ex_empty_def ex_two_def)

lemma ex_two_inv: "table_inv ex_hash ex_two [[], [5, 1]] []"
  by (simp add: table_inv_def buckets_ok_def placed_def ex_two_def ex_mem_def ex_hash_def
      less_Suc_eq)

lemma upt_2: "[0..<2] = [0, 1]" by (simp add: numeral_eq_Suc)
lemma upt_4: "[0..<4] = [0, 1, 2, 3]" by (simp add: numeral_eq_Suc)

lemma ex_two_order:
  "recent_first ex_hash (\<lambda>q. ITEM_key (ex_mem q)) 1 [5, 1] = [5, 1]"
  by (simp add: recent_first_def upt_2 ex_mem_def ex_hash_def)

lemma ex_two_rehashed:
  "concat (rehashed ex_hash (\<lambda>q. ITEM_key (items ex_two q)) 1 [[], [5, 1]]) = [1, 5]"
  by (simp add: rehashed_def upt_4 ex_two_def ex_mem_def ex_hash_def)

lemma ex_stable_rehashed:
  "concat (rehashed ex_hash (\<lambda>q. ITEM_key (items ex_stable q)) 1 [[2], [1, 3]]) = [1, 2, 3]"
  by (simp add: rehashed_def upt_4 ex_stable_def ex_mem_def ex_hash_def)

lemma replicate_4: "replicate 4 (0::nat) = [0, 0, 0, 0]"
  by (simp add: numeral_eq_Suc)

lemma ex_steps:
  "allowed ex_hash (Insert 4) ex_stable"
  "step ex_hash (\<lambda>b. True) (Insert 4) ex_stable = Some ex_inserted"
  "allowed ex_hash (Expand 11) ex_inserted"
  "step ex_hash (\<lambda>b. True) (Expand 11) ex_inserted = Some ex_started"
  "allowed ex_hash Move ex_started"
  "step ex_hash (\<lambda>b. True) Move ex_started = Some ex_moved"
  "allowed ex_hash (Delete ''d'') ex_moved"
  "step ex_hash (\<lambda>b. True) (Delete ''d'') ex_moved = Some ex_deleted"
  "allowed ex_hash Move ex_deleted"
  by (simp_all add: ex_eval replicate_4 ex_stable_def ex_inserted_def ex_started_def ex_moved_def
      ex_deleted_def)

lemma ex_moved_inv: "table_inv ex_hash ex_moved [[4], [], [2], []] [[], [1, 3]]"
  by (simp add: table_inv_def exp_inv_def buckets_ok_def placed_def ex_moved_def ex_mem_def
      ex_hash_def less_Suc_eq)

lemma ex_insert: "assoc_insert ex_stable 4 100 = Some ex_inserted"
  using ex_steps(2) by (simp add: step_def ex_stable_def ex_mem_def ex_hash_def)

lemma ex_lookup:
  "lookup ex_hash ex_stable ''a'' = 1" "ex_hash ''a'' = 97" "ex_hash ''d'' = 100"
  "ex_hash ''e'' = 101" "ex_hash ''b'' = 98"
  "ITEM_key (items ex_stable 4) = ''d''" "ITEM_key (ex_mem 1) = ''a''"
  "ITEM_key (ex_mem 5) = ''e''"
  by (simp_all add: lookup_def ex_eval ex_stable_def)

text \<open>Whenever \<open>assoc_insert\<close> returns, the item it pushed is the head of the bucket
  that \<open>assoc_find\<close> reads for the same hash value.\<close>

lemma insert_slot_cases: "\<exists>a i. assoc_insert_slot st hv = Slot a i"
  by (simp add: assoc_insert_slot_def Let_def)

lemma insert_then_find:
  assumes ins: "assoc_insert st p hv = Some st1" and p0: "p \<noteq> 0"
  shows "assoc_find st1 (ITEM_key (items st p)) hv = Some p"
proof -
  obtain a i where sl: "assoc_insert_slot st hv = Slot a i"
    using insert_slot_cases by blast
  let ?st0 = "st\<lparr>items := (items st)(p := (items st p)\<lparr>h_next := the (link_get st (Slot a i))\<rparr>)\<rparr>"
  from ins sl obtain xs where xs: "arrays st a = Some xs" and i: "i < length xs"
    and st1: "st1 = ?st0\<lparr>arrays := (arrays st)(a \<mapsto> xs[i := p])\<rparr>"
    by (auto simp: assoc_insert_def Let_def link_get_def link_set_def
        split: option.splits if_splits)
  have same: "assoc_insert_slot st1 hv = assoc_insert_slot st hv"
    by (simp add: st1 assoc_insert_slot_def Let_def)
  have fs: "assoc_find_slot st1 hv = Slot a i"
    by (simp only: find_slot_eq before_slot_eq same sl)
  have g: "link_get st1 (Slot a i) = Some p"
    using i by (simp add: st1 link_get_def)
  have k: "ITEM_key (items st1 p) = ITEM_key (items st p)" by (simp add: st1)
  have "find_loop (items st1) (ITEM_key (items st p)) p = Some p"
    using p0 k by (subst find_loop.simps) (simp add: nkey_def memcmp_eq_def)
  then show ?thesis by (simp add: assoc_find_def fs g)
qed

section \<open>The addressing rule\<close>



section \<open>Migration\<close>

text \<open>
  Claim C2. In a well-formed table that is expanding (so that the cursor is below the
  length of the old array), one migration step (lines 271-280) returns, leaves every
  item of \<open>old[expand_bucket]\<close> in the chain of the primary bucket that its key's hash
  selects under the mask of \<open>hashpower\<close> bits, leaves \<open>old[expand_bucket]\<close> null and
  has advanced the cursor by one. Consequently a whole cycle of the maintenance thread
  from a stable well-formed table (\<open>assoc_expand\<close> with a successful allocation, then
  the migration loop with a positive batch size and every bucket lock free) ends in a
  stable well-formed table with \<open>hashpower\<close> one higher, whose primary chains hold
  exactly the items that were there before, each once; \<open>assoc_find\<close> returns each of
  them for its key, looking in the primary array only, and returns the null pointer
  for every other key. A table filled by \<open>assoc_init\<close> and the insertion of \<open>N\<close>
  items with distinct keys is such a table, with exactly those \<open>N\<close> items in its
  chains (\<open>filled_table_inv\<close>).
\<close>

theorem migration_no_loss:
  assumes inv: "table_inv hash st pcs ocs"
  shows "(expanding st \<longrightarrow>
           (\<exists>st1 pcs1. migrate_bucket hash st = Some st1
              \<and> buckets_ok st1 (primary_hashtable st1) pcs1
              \<and> (\<forall>p \<in> set (ocs ! expand_bucket st).
                    p \<in> set (pcs1 ! (unat (hash (ITEM_key (items st1 p))) mod 2 ^ hashpower st1)))
              \<and> link_get st1 (Slot (old_hashtable st1) (expand_bucket st)) = Some 0
              \<and> expand_bucket st1 = expand_bucket st + 1))
       \<and> (\<not> expanding st \<and> new \<noteq> 0 \<and> new \<notin> dom (arrays st) \<and> hashpower st + 1 < 64
            \<and> 0 < hash_bulk_move st \<and> (\<forall>b. trylock b) \<longrightarrow>
           (\<exists>st' pcs'. expansion_cycle hash trylock new st = Some st'
              \<and> \<not> expanding st' \<and> hashpower st' = hashpower st + 1
              \<and> table_inv hash st' pcs' []
              \<and> mset (concat pcs') = mset (concat pcs)
              \<and> (\<forall>p \<in> set (concat pcs).
                    assoc_find st' (ITEM_key (items st p)) (hash (ITEM_key (items st p))) = Some p
                    \<and> assoc_find_slot st' (hash (ITEM_key (items st p)))
                        = Slot (primary_hashtable st')
                            (unat (hash (ITEM_key (items st p))) mod 2 ^ hashpower st'))
              \<and> (\<forall>K hv. K \<notin> (\<lambda>p. ITEM_key (items st p)) ` set (concat pcs)
                    \<longrightarrow> assoc_find st' K hv = Some 0)))"
proof (intro conjI impI)
  assume e: "expanding st"
  from migrate_bucket_effect [OF inv e] obtain st1 where
    mig: "migrate_bucket hash st = Some st1"
    and eb: "expand_bucket st1 = expand_bucket st + 1"
    and g: "link_get st1 (Slot (old_hashtable st) (expand_bucket st)) = Some 0"
    and okp: "buckets_ok st1 (primary_hashtable st)
           (moved hash (items st) (hashpower st) (ocs ! expand_bucket st) pcs)"
    and sc: "hashpower st1 = hashpower st" "primary_hashtable st1 = primary_hashtable st"
      "old_hashtable st1 = old_hashtable st"
    and k: "\<forall>q. ITEM_key (items st1 q) = ITEM_key (items st q)" by blast
  have "\<forall>p \<in> set (ocs ! expand_bucket st).
      p \<in> set (moved hash (items st) (hashpower st) (ocs ! expand_bucket st) pcs
                ! (unat (hash (ITEM_key (items st1 p))) mod 2 ^ hashpower st1))"
    using table_invD(3) [OF inv] by (simp add: k sc moved_in_bucket)
  with mig eb g okp sc
  show "\<exists>st1 pcs1. migrate_bucket hash st = Some st1
              \<and> buckets_ok st1 (primary_hashtable st1) pcs1
              \<and> (\<forall>p \<in> set (ocs ! expand_bucket st).
                    p \<in> set (pcs1 ! (unat (hash (ITEM_key (items st1 p))) mod 2 ^ hashpower st1)))
              \<and> link_get st1 (Slot (old_hashtable st1) (expand_bucket st)) = Some 0
              \<and> expand_bucket st1 = expand_bucket st + 1"
    by (intro exI [of _ st1]
        exI [of _ "moved hash (items st) (hashpower st) (ocs ! expand_bucket st) pcs"]) simp
next
  assume a: "\<not> expanding st \<and> new \<noteq> 0 \<and> new \<notin> dom (arrays st) \<and> hashpower st + 1 < 64
            \<and> 0 < hash_bulk_move st \<and> (\<forall>b. trylock b)"
  then have ne: "\<not> expanding st" and new: "new \<noteq> 0" "new \<notin> dom (arrays st)"
    and hp: "hashpower st + 1 < 64" and bm: "0 < hash_bulk_move st" and tl: "\<forall>b. trylock b"
    by simp_all
  let ?st1 = "assoc_expand new st"
  let ?pcs1 = "replicate (2 ^ (hashpower st + 1)) ([]::nat list)"
  note x = expand_inv [OF inv ne new hp]
  have bm1: "0 < hash_bulk_move ?st1" using bm x(8) by simp
  from expansion_phase_inv [OF x(1) x(2) bm1 tl] obtain st' pcs' where
    ph: "expansion_phase hash trylock ?st1 = Some st'"
    and inv': "table_inv hash st' pcs' []" and ne': "\<not> expanding st'"
    and ca: "carried ?st1 (?pcs1 @ pcs) st' pcs'" by blast
  have cyc: "expansion_cycle hash trylock new st = Some st'"
    using ph x(2) by (simp add: expansion_cycle_def Let_def)
  have ms: "mset (concat pcs') = mset (concat pcs)"
    using ca by (simp add: carried_def concat_replicate_Nil)
  have keys: "ITEM_key (items st' q) = ITEM_key (items st q)" for q
    using ca x(7) by (auto simp: carried_def dest: fun_cong)
  have hp': "hashpower st' = hashpower st + 1" using ca x(4) by (simp add: carried_def)
  have sets: "set (concat pcs') = set (concat pcs)" using ms by (rule mset_eq_setD)
  have found: "assoc_find st' (ITEM_key (items st p)) (hash (ITEM_key (items st p))) = Some p
      \<and> assoc_find_slot st' (hash (ITEM_key (items st p)))
          = Slot (primary_hashtable st') (unat (hash (ITEM_key (items st p))) mod 2 ^ hashpower st')"
    if "p \<in> set (concat pcs)" for p
  proof -
    from that sets have "p \<in> set (concat (pcs' @ []))" by simp
    from assoc_find_member [OF inv' this]
    have "assoc_find st' (ITEM_key (items st p)) (hash (ITEM_key (items st p))) = Some p"
      by (simp add: keys)
    moreover have "assoc_find_slot st' hv = Slot (primary_hashtable st') (unat hv mod 2 ^ hashpower st')"
      for hv using ne' by (simp add: inv_slots(1) [OF inv'] the_slot_def in_old_def)
    ultimately show ?thesis by simp
  qed
  have absent: "assoc_find st' K hv = Some 0"
    if "K \<notin> (\<lambda>p. ITEM_key (items st p)) ` set (concat pcs)" for K hv
  proof (rule assoc_find_absent [OF inv'])
    fix q assume "q \<in> set (concat (pcs' @ []))"
    with sets have "q \<in> set (concat pcs)" by simp
    with that show "ITEM_key (items st' q) \<noteq> K" by (auto simp: keys)
  qed
  from cyc ne' hp' inv' ms found absent
  show "\<exists>st' pcs'. expansion_cycle hash trylock new st = Some st'
              \<and> \<not> expanding st' \<and> hashpower st' = hashpower st + 1
              \<and> table_inv hash st' pcs' []
              \<and> mset (concat pcs') = mset (concat pcs)
              \<and> (\<forall>p \<in> set (concat pcs).
                    assoc_find st' (ITEM_key (items st p)) (hash (ITEM_key (items st p))) = Some p
                    \<and> assoc_find_slot st' (hash (ITEM_key (items st p)))
                        = Slot (primary_hashtable st')
                            (unat (hash (ITEM_key (items st p))) mod 2 ^ hashpower st'))
              \<and> (\<forall>K hv. K \<notin> (\<lambda>p. ITEM_key (items st p)) ` set (concat pcs)
                    \<longrightarrow> assoc_find st' K hv = Some 0)"
    by blast
qed

theorem migration_no_loss_witness:
  "table_inv ex_hash ex_expanding [[], [], [2], []] [[], [1, 3]]
   \<and> expanding ex_expanding
   \<and> (\<exists>st1. migrate_bucket ex_hash ex_expanding = Some st1
          \<and> link_get st1 (Slot 10 1) = Some 0 \<and> expand_bucket st1 = 2)
   \<and> table_inv ex_hash ex_stable [[2], [1, 3]] []
   \<and> \<not> expanding ex_stable \<and> 11 \<notin> dom (arrays ex_stable)
   \<and> 0 < hash_bulk_move ex_stable
   \<and> (\<exists>st'. expansion_cycle ex_hash (\<lambda>b. True) 11 ex_stable = Some st'
          \<and> \<not> expanding st' \<and> hashpower st' = 2
          \<and> assoc_find st' ''a'' 97 = Some 1
          \<and> assoc_find st' ''b'' 98 = Some 2
          \<and> assoc_find st' ''c'' 99 = Some 3
          \<and> assoc_find st' ''d'' 100 = Some 0)"
proof -
  have e: "expanding ex_expanding" "old_hashtable ex_expanding = 10"
    "expand_bucket ex_expanding = 1"
    by (simp_all add: ex_expanding_def)
  from migration_no_loss [OF ex_expanding_inv, of 0 "\<lambda>b. True"] e(1) obtain st1 where
    1: "migrate_bucket ex_hash ex_expanding = Some st1"
      "link_get st1 (Slot (old_hashtable st1) (expand_bucket ex_expanding)) = Some 0"
      "expand_bucket st1 = expand_bucket ex_expanding + 1" by blast
  from migrate_bucket_effect [OF ex_expanding_inv e(1)] 1(1)
  have "old_hashtable st1 = 10" by (auto simp: e)
  with 1 have s: "\<exists>st1. migrate_bucket ex_hash ex_expanding = Some st1
          \<and> link_get st1 (Slot 10 1) = Some 0 \<and> expand_bucket st1 = 2"
    by (simp add: e)
  have h: "\<not> expanding ex_stable \<and> (11::nat) \<noteq> 0 \<and> 11 \<notin> dom (arrays ex_stable)
      \<and> hashpower ex_stable + 1 < 64 \<and> 0 < hash_bulk_move ex_stable \<and> (\<forall>b::nat. True)"
    by (simp add: ex_stable_def)
  have k: "ITEM_key (items ex_stable 1) = ''a''" "ITEM_key (items ex_stable 2) = ''b''"
    "ITEM_key (items ex_stable 3) = ''c''"
    "ex_hash ''a'' = 97" "ex_hash ''b'' = 98" "ex_hash ''c'' = 99"
    "''d'' \<notin> (\<lambda>p. ITEM_key (items ex_stable p)) ` set (concat [[2], [1, 3]])"
    "hashpower ex_stable = 1"
    by (simp_all add: ex_stable_def ex_mem_def ex_hash_def)
  from migration_no_loss [OF ex_stable_inv, of 11 "\<lambda>b. True"] h obtain st' where
    2: "expansion_cycle ex_hash (\<lambda>b. True) 11 ex_stable = Some st'"
      "\<not> expanding st'" "hashpower st' = hashpower ex_stable + 1"
    and f: "\<And>p. p \<in> set (concat [[2], [1, 3]]) \<Longrightarrow>
        assoc_find st' (ITEM_key (items ex_stable p)) (ex_hash (ITEM_key (items ex_stable p))) = Some p"
    and n: "\<And>K hv. K \<notin> (\<lambda>p. ITEM_key (items ex_stable p)) ` set (concat [[2], [1, 3]])
        \<Longrightarrow> assoc_find st' K hv = Some 0"
    by blast
  from f [of 1] f [of 2] f [of 3] n [OF k(7), of 100] 2 k
  have "\<exists>st'. expansion_cycle ex_hash (\<lambda>b. True) 11 ex_stable = Some st'
          \<and> \<not> expanding st' \<and> hashpower st' = 2
          \<and> assoc_find st' ''a'' 97 = Some 1
          \<and> assoc_find st' ''b'' 98 = Some 2
          \<and> assoc_find st' ''c'' 99 = Some 3
          \<and> assoc_find st' ''d'' 100 = Some 0"
    by simp
  with s h e ex_expanding_inv ex_stable_inv show ?thesis by simp
qed

section \<open>Round trip\<close>

text \<open>
  Claim C3. Round trip. Whenever \<open>assoc_insert\<close> of an item \<open>p\<close> with hash value \<open>H\<close>
  returns, \<open>assoc_find\<close> of the key of \<open>p\<close> and \<open>H\<close> returns \<open>p\<close>, in every state and for
  every \<open>H\<close>. From a well-formed table, and from the table that \<open>assoc_init\<close> leaves,
  every sequence of inserts, deletes, expansion starts and migration steps in which
  the callers keep to their contract returns, and afterwards \<open>assoc_find\<close> of every
  key and its hash returns what the store of the specification holds for the key:
  the entry of the last insert of that key, and the null pointer when there was none
  or a delete of the key came after it. In particular the entry \<open>p\<close> inserted with the
  key \<open>K\<close> is found as long as no delete of \<open>K\<close> occurs (the contract excludes a second
  insert of a key that is in the table, so that a replacement is a delete and an
  insert), and after a delete of \<open>K\<close> the key is not found as long as no item with the
  key \<open>K\<close> is inserted. \<open>find_loop\<close> returns the first item of the chain whose \<open>nkey\<close>
  equals the key length and whose bytes equal the key.
\<close>

theorem round_trip:
  "(\<forall>st1. assoc_insert st p H = Some st1 \<and> p \<noteq> 0
          \<longrightarrow> assoc_find st1 (ITEM_key (items st p)) H = Some p)
   \<and> (table_inv hash st pcs ocs \<and> allowed_run hash trylock cs st
      \<longrightarrow> (\<exists>st'. run hash trylock cs st = Some st'
             \<and> (\<exists>pcs' ocs'. table_inv hash st' pcs' ocs')
             \<and> (\<forall>key. assoc_find st' key (hash key)
                   = Some (fold (spec_step (\<lambda>q. ITEM_key (items st q))) cs (lookup hash st) key))))
   \<and> (table_inv hash st pcs ocs \<and> K = ITEM_key (items st p)
        \<and> allowed_run hash trylock (Insert p # cs) st \<and> Delete K \<notin> set cs
      \<longrightarrow> (\<exists>st'. run hash trylock (Insert p # cs) st = Some st'
             \<and> assoc_find st' K (hash K) = Some p))
   \<and> (table_inv hash st pcs ocs \<and> allowed_run hash trylock (Delete K # cs) st
        \<and> (\<forall>q. Insert q \<in> set cs \<longrightarrow> ITEM_key (items st q) \<noteq> K)
      \<longrightarrow> (\<exists>st'. run hash trylock (Delete K # cs) st = Some st'
             \<and> assoc_find st' K (hash K) = Some 0))
   \<and> (assoc_init hashtable_init adr (initial_state d mem) = Inr sti \<and> hashpower sti < 64
        \<and> allowed_run hash trylock cs sti
      \<longrightarrow> (\<exists>st'. run hash trylock cs sti = Some st'
             \<and> (\<forall>key. assoc_find st' key (hash key)
                   = Some (fold (spec_step (\<lambda>q. ITEM_key (mem q))) cs (\<lambda>key. 0) key))))"
proof (intro conjI impI allI)
  fix st1 assume "assoc_insert st p H = Some st1 \<and> p \<noteq> 0"
  then show "assoc_find st1 (ITEM_key (items st p)) H = Some p"
    using insert_then_find by blast
next
  assume "table_inv hash st pcs ocs \<and> allowed_run hash trylock cs st"
  then have inv: "table_inv hash st pcs ocs" and al: "allowed_run hash trylock cs st" by simp_all
  from run_refines [OF inv al]
  obtain st' pcs' ocs' where r: "run hash trylock cs st = Some st'"
    and inv': "table_inv hash st' pcs' ocs'"
    and l: "lookup hash st' = fold (spec_step (\<lambda>q. ITEM_key (items st q))) cs (lookup hash st)"
    by blast
  have "\<forall>key. assoc_find st' key (hash key)
          = Some (fold (spec_step (\<lambda>q. ITEM_key (items st q))) cs (lookup hash st) key)"
    using find_total [OF inv'] by (simp add: l)
  with r inv' show "\<exists>st'. run hash trylock cs st = Some st'
             \<and> (\<exists>pcs' ocs'. table_inv hash st' pcs' ocs')
             \<and> (\<forall>key. assoc_find st' key (hash key)
                   = Some (fold (spec_step (\<lambda>q. ITEM_key (items st q))) cs (lookup hash st) key))"
    by blast
next
  assume a: "table_inv hash st pcs ocs \<and> K = ITEM_key (items st p)
        \<and> allowed_run hash trylock (Insert p # cs) st \<and> Delete K \<notin> set cs"
  then have inv: "table_inv hash st pcs ocs" and K: "K = ITEM_key (items st p)"
    and nd: "Delete K \<notin> set cs" by blast+
  from a have al: "allowed hash (Insert p) st" by simp
  from al have p0: "p \<noteq> 0" by (simp add: allowed_def)
  from step_refines [OF inv al, of trylock]
  obtain st1 pcs1 ocs1 where s: "step hash trylock (Insert p) st = Some st1"
    and inv1: "table_inv hash st1 pcs1 ocs1"
    and l1: "lookup hash st1 = spec_step (\<lambda>q. ITEM_key (items st q)) (Insert p) (lookup hash st)"
    by blast
  from a s have al1: "allowed_run hash trylock cs st1" by simp
  from l1 K have "lookup hash st1 K = p" by simp
  from persist [OF inv1 al1 nd this p0]
  obtain st' pcs' ocs' where "run hash trylock cs st1 = Some st'"
    "table_inv hash st' pcs' ocs'" "lookup hash st' K = p" by blast
  with s lookup_Some [of hash st' pcs' ocs' K p]
  show "\<exists>st'. run hash trylock (Insert p # cs) st = Some st'
             \<and> assoc_find st' K (hash K) = Some p" by simp
next
  assume a: "table_inv hash st pcs ocs \<and> allowed_run hash trylock (Delete K # cs) st
        \<and> (\<forall>q. Insert q \<in> set cs \<longrightarrow> ITEM_key (items st q) \<noteq> K)"
  then have inv: "table_inv hash st pcs ocs"
    and al: "allowed hash (Delete K) st"
    and ni: "\<forall>q. Insert q \<in> set cs \<longrightarrow> ITEM_key (items st q) \<noteq> K" by simp_all
  from step_refines [OF inv al, of trylock]
  obtain st1 pcs1 ocs1 where s: "step hash trylock (Delete K) st = Some st1"
    and inv1: "table_inv hash st1 pcs1 ocs1"
    and keys1: "(\<lambda>q. ITEM_key (items st1 q)) = (\<lambda>q. ITEM_key (items st q))"
    and l1: "lookup hash st1 = spec_step (\<lambda>q. ITEM_key (items st q)) (Delete K) (lookup hash st)"
    by blast
  from a s have al1: "allowed_run hash trylock cs st1" by simp
  from l1 have z: "lookup hash st1 K = 0" by simp
  from ni fun_cong [OF keys1]
  have "\<forall>q. Insert q \<in> set cs \<longrightarrow> ITEM_key (items st1 q) \<noteq> K" by simp
  from stays_absent [OF inv1 al1 this z]
  obtain st' pcs' ocs' where "run hash trylock cs st1 = Some st'"
    "table_inv hash st' pcs' ocs'" "lookup hash st' K = 0" by blast
  with s lookup_Some [of hash st' pcs' ocs' K 0]
  show "\<exists>st'. run hash trylock (Delete K # cs) st = Some st'
             \<and> assoc_find st' K (hash K) = Some 0" by simp
next
  assume a: "assoc_init hashtable_init adr (initial_state d mem) = Inr sti \<and> hashpower sti < 64
        \<and> allowed_run hash trylock cs sti"
  then have init: "assoc_init hashtable_init adr (initial_state d mem) = Inr sti"
    and hp: "hashpower sti < 64" and al: "allowed_run hash trylock cs sti" by simp_all
  note i = init_inv [OF init hp]
  from run_refines [OF i(1) al]
  obtain st' pcs' ocs' where r: "run hash trylock cs sti = Some st'"
    and inv': "table_inv hash st' pcs' ocs'"
    and l: "lookup hash st' = fold (spec_step (\<lambda>q. ITEM_key (items sti q))) cs (lookup hash sti)"
    by blast
  have "\<forall>key. assoc_find st' key (hash key)
          = Some (fold (spec_step (\<lambda>q. ITEM_key (mem q))) cs (\<lambda>key. 0) key)"
    using find_total [OF inv'] by (simp add: l i(3) lookup_init [OF init hp])
  with r show "\<exists>st'. run hash trylock cs sti = Some st'
             \<and> (\<forall>key. assoc_find st' key (hash key)
                   = Some (fold (spec_step (\<lambda>q. ITEM_key (mem q))) cs (\<lambda>key. 0) key))"
    by blast
qed

theorem round_trip_witness:
  "assoc_insert ex_stable 4 100 = Some ex_inserted
   \<and> assoc_find ex_inserted ''d'' 100 = Some 4
   \<and> table_inv ex_hash ex_stable [[2], [1, 3]] []
   \<and> allowed_run ex_hash (\<lambda>b. True) [Insert 4, Expand 11, Move, Delete ''d''] ex_stable
   \<and> (\<exists>st'. run ex_hash (\<lambda>b. True) [Insert 4, Expand 11, Move, Delete ''d''] ex_stable = Some st'
          \<and> assoc_find st' ''d'' 100 = Some 0 \<and> assoc_find st' ''a'' 97 = Some 1)
   \<and> (\<exists>st'. run ex_hash (\<lambda>b. True) [Insert 4, Expand 11, Move] ex_stable = Some st'
          \<and> assoc_find st' ''d'' 100 = Some 4)
   \<and> table_inv ex_hash ex_moved [[4], [], [2], []] [[], [1, 3]]
   \<and> allowed_run ex_hash (\<lambda>b. True) [Delete ''d'', Move] ex_moved
   \<and> (\<exists>st'. run ex_hash (\<lambda>b. True) [Delete ''d'', Move] ex_moved = Some st'
          \<and> assoc_find st' ''d'' 100 = Some 0)
   \<and> assoc_init 1 10 (initial_state 16 ex_mem) = Inr ex_empty
   \<and> allowed_run ex_hash (\<lambda>b. True) [Insert 1, Insert 5] ex_empty
   \<and> (\<exists>st'. run ex_hash (\<lambda>b. True) [Insert 1, Insert 5] ex_empty = Some st'
          \<and> assoc_find st' ''e'' 101 = Some 5 \<and> assoc_find st' ''b'' 98 = Some 0)"
proof -
  have a1: "allowed_run ex_hash (\<lambda>b. True) [Insert 4, Expand 11, Move, Delete ''d''] ex_stable"
    and a2: "allowed_run ex_hash (\<lambda>b. True) (Insert 4 # [Expand 11, Move]) ex_stable"
    and a3: "allowed_run ex_hash (\<lambda>b. True) (Delete ''d'' # [Move]) ex_moved"
    by (simp_all add: ex_steps split: option.splits)
  have n: "Delete ''d'' \<notin> set [Expand 11, Move]"
    "\<forall>q. Insert q \<in> set [Move] \<longrightarrow> ITEM_key (items ex_moved q) \<noteq> ''d''"
    "(4::nat) \<noteq> 0" "hashpower ex_empty < 64"
    by (simp_all add: ex_empty_def)
  note t1 = round_trip [where st = ex_stable and p = 4 and H = 100 and hash = ex_hash
      and pcs = "[[2], [1, 3]]" and ocs = "[]" and trylock = "\<lambda>b. True"
      and cs = "[Insert 4, Expand 11, Move, Delete ''d'']" and hashtable_init = 1
      and adr = 10 and d = 16 and mem = ex_mem and sti = ex_empty]
  note t2 = round_trip [where st = ex_stable and p = 4 and K = "''d''" and hash = ex_hash
      and pcs = "[[2], [1, 3]]" and ocs = "[]" and trylock = "\<lambda>b. True"
      and cs = "[Expand 11, Move]"]
  note t3 = round_trip [where st = ex_moved and K = "''d''" and hash = ex_hash
      and pcs = "[[4], [], [2], []]" and ocs = "[[], [1, 3]]" and trylock = "\<lambda>b. True"
      and cs = "[Move]"]
  note t4 = round_trip [where hash = ex_hash and trylock = "\<lambda>b. True"
      and cs = "[Insert 1, Insert 5]" and hashtable_init = 1
      and adr = 10 and d = 16 and mem = ex_mem and sti = ex_empty]
  from t1 ex_insert n(3) have c1: "assoc_find ex_inserted ''d'' 100 = Some 4"
    by (simp add: ex_lookup)
  from t1 ex_stable_inv a1
  have "\<exists>st'. run ex_hash (\<lambda>b. True) [Insert 4, Expand 11, Move, Delete ''d''] ex_stable = Some st'
      \<and> (\<forall>key. assoc_find st' key (ex_hash key)
            = Some (fold (spec_step (\<lambda>q. ITEM_key (items ex_stable q)))
                      [Insert 4, Expand 11, Move, Delete ''d''] (lookup ex_hash ex_stable) key))"
    by blast
  then obtain s2 where s2: "run ex_hash (\<lambda>b. True) [Insert 4, Expand 11, Move, Delete ''d''] ex_stable = Some s2"
    and f2: "\<And>key. assoc_find s2 key (ex_hash key)
            = Some (fold (spec_step (\<lambda>q. ITEM_key (items ex_stable q)))
                      [Insert 4, Expand 11, Move, Delete ''d''] (lookup ex_hash ex_stable) key)"
    by blast
  from f2 [of "''d''"] f2 [of "''a''"]
  have c2: "assoc_find s2 ''d'' 100 = Some 0 \<and> assoc_find s2 ''a'' 97 = Some 1"
    by (simp add: ex_lookup)
  from t2 ex_stable_inv a2 n(1) ex_lookup(6)
  have c3: "\<exists>st'. run ex_hash (\<lambda>b. True) [Insert 4, Expand 11, Move] ex_stable = Some st'
          \<and> assoc_find st' ''d'' 100 = Some 4"
    by (simp add: ex_lookup(3))
  from t3 ex_moved_inv a3 n(2)
  have c4: "\<exists>st'. run ex_hash (\<lambda>b. True) [Delete ''d'', Move] ex_moved = Some st'
          \<and> assoc_find st' ''d'' 100 = Some 0"
    by (simp add: ex_lookup(3))
  from t4 ex_init n(4) ex_two_run(1)
  have "\<exists>st'. run ex_hash (\<lambda>b. True) [Insert 1, Insert 5] ex_empty = Some st'
      \<and> (\<forall>key. assoc_find st' key (ex_hash key)
            = Some (fold (spec_step (\<lambda>q. ITEM_key (ex_mem q))) [Insert 1, Insert 5]
                      (\<lambda>key. 0) key))"
    by blast
  then obtain s5 where s5: "run ex_hash (\<lambda>b. True) [Insert 1, Insert 5] ex_empty = Some s5"
    and f5: "\<And>key. assoc_find s5 key (ex_hash key)
            = Some (fold (spec_step (\<lambda>q. ITEM_key (ex_mem q))) [Insert 1, Insert 5]
                      (\<lambda>key. 0) key)"
    by blast
  from f5 [of "''e''"] f5 [of "''b''"]
  have c5: "assoc_find s5 ''e'' 101 = Some 5 \<and> assoc_find s5 ''b'' 98 = Some 0"
    by (simp add: ex_lookup ex_mem_def)
  from ex_insert c1 ex_stable_inv a1 s2 c2 c3 ex_moved_inv a3 c4 ex_init ex_two_run(1) s5 c5
  show ?thesis by auto
qed

section \<open>Allocation failure at expansion start\<close>

text \<open>
  Claim C4. When the allocation of the doubled array fails (\<open>calloc\<close> returns the null
  pointer) while the table is stable, \<open>assoc_expand\<close> leaves \<open>hashpower\<close>, the
  \<open>expanding\<close> flag, the cursor, the pointer to the primary array, every bucket array
  and every item as they were; the only variable it changes is the stale pointer
  \<open>old_hashtable\<close>, which no operation reads while the table is not expanding. So
  \<open>assoc_find\<close>, \<open>assoc_insert\<close> and \<open>assoc_delete\<close> return what they returned before,
  and leave the state they left before.
\<close>

theorem expand_alloc_failure:
  assumes "\<not> expanding st"
  shows "assoc_expand 0 st = st\<lparr>old_hashtable := primary_hashtable st\<rparr>
       \<and> hashpower (assoc_expand 0 st) = hashpower st
       \<and> expanding (assoc_expand 0 st) = expanding st
       \<and> expand_bucket (assoc_expand 0 st) = expand_bucket st
       \<and> primary_hashtable (assoc_expand 0 st) = primary_hashtable st
       \<and> arrays (assoc_expand 0 st) = arrays st
       \<and> items (assoc_expand 0 st) = items st
       \<and> assoc_find (assoc_expand 0 st) key hv = assoc_find st key hv
       \<and> assoc_insert (assoc_expand 0 st) p hv
           = map_option (\<lambda>s. s\<lparr>old_hashtable := primary_hashtable st\<rparr>) (assoc_insert st p hv)
       \<and> assoc_delete (assoc_expand 0 st) key hv
           = map_option (map_sum id (\<lambda>s. s\<lparr>old_hashtable := primary_hashtable st\<rparr>))
               (assoc_delete st key hv)"
proof -
  let ?st = "st\<lparr>old_hashtable := primary_hashtable st\<rparr>"
  have e: "assoc_expand 0 st = ?st"
    by (simp add: assoc_expand_def calloc_def Let_def)
  have lg: "link_get ?st l = link_get st l" for l by (rule link_get_cong) simp_all
  have f: "assoc_find ?st key hv = assoc_find st key hv"
    using assms by (simp add: assoc_find_def assoc_find_slot_def Let_def lg split: option.splits)
  have i: "assoc_insert ?st p hv = map_option (\<lambda>s. s\<lparr>old_hashtable := primary_hashtable st\<rparr>) (assoc_insert st p hv)"
    using assms
    by (auto simp: assoc_insert_def assoc_insert_slot_def Let_def link_get_def link_set_def
        split: option.splits)
  have b: "hashitem_before ?st key hv = hashitem_before st key hv"
    using assms before_loop_frame [of ?st st key "Slot (primary_hashtable st) (unat hv AND hashmask (hashpower st))"]
    by (simp add: hashitem_before_def hashitem_before_slot_def Let_def)
  have d: "assoc_delete ?st key hv
           = map_option (map_sum id (\<lambda>s. s\<lparr>old_hashtable := primary_hashtable st\<rparr>))
               (assoc_delete st key hv)"
    by (auto simp: assoc_delete_def b lg Let_def link_set_def split: option.splits link.splits)
  show ?thesis unfolding e using f i d by simp
qed

theorem expand_alloc_failure_witness:
  "\<not> expanding ex_stable
   \<and> hashpower (assoc_expand 0 ex_stable) = hashpower ex_stable
   \<and> primary_hashtable (assoc_expand 0 ex_stable) = primary_hashtable ex_stable
   \<and> arrays (assoc_expand 0 ex_stable) = arrays ex_stable
   \<and> assoc_find (assoc_expand 0 ex_stable) ''c'' 99 = assoc_find ex_stable ''c'' 99"
proof -
  have h: "\<not> expanding ex_stable" by (simp add: ex_stable_def)
  from expand_alloc_failure [OF h, of "''c''" 99 0] h show ?thesis by blast
qed

section \<open>The old array while expanding\<close>

text \<open>
  Claim C5, as amended. In every well-formed table, while \<open>expanding\<close> is true the old
  array reference is non-null, the old array is allocated and its length is exactly
  half the length of the primary array. This holds after a successful expansion
  start, after a failed one, after each migration step (before and after the check
  for completion) and after completion, each of which leaves the table well formed.
\<close>

theorem old_array_invariant:
  assumes inv: "table_inv hash st pcs ocs"
  shows "old_inv st
       \<and> (\<not> expanding st \<and> new \<noteq> 0 \<and> new \<notin> dom (arrays st) \<and> hashpower st + 1 < 64 \<longrightarrow>
            expanding (assoc_expand new st) \<and> old_inv (assoc_expand new st)
            \<and> (\<exists>pcs' ocs'. table_inv hash (assoc_expand new st) pcs' ocs'))
       \<and> (\<not> expanding st \<longrightarrow>
            \<not> expanding (assoc_expand 0 st) \<and> old_inv (assoc_expand 0 st)
            \<and> table_inv hash (assoc_expand 0 st) pcs ocs)
       \<and> (expanding st \<longrightarrow>
            (\<exists>st1. migrate_bucket hash st = Some st1 \<and> old_inv st1
               \<and> old_inv (expansion_done st1)
               \<and> expanding (expansion_done st1)
                   = (expand_bucket st + 1 \<noteq> array_length st (old_hashtable st))
               \<and> (\<exists>pcs' ocs'. table_inv hash (expansion_done st1) pcs' ocs')))"
proof (intro conjI impI)
  show "old_inv st" using inv by (rule inv_old_inv)
next
  assume a: "\<not> expanding st \<and> new \<noteq> 0 \<and> new \<notin> dom (arrays st) \<and> hashpower st + 1 < 64"
  then have ne: "\<not> expanding st" and new: "new \<noteq> 0" "new \<notin> dom (arrays st)"
    and hp: "hashpower st + 1 < 64" by simp_all
  note x = expand_inv [OF inv ne new hp]
  show "expanding (assoc_expand new st)" by (rule x(2))
  show "old_inv (assoc_expand new st)" using x(1) by (rule inv_old_inv)
  show "\<exists>pcs' ocs'. table_inv hash (assoc_expand new st) pcs' ocs'" using x(1) by blast
next
  assume ne: "\<not> expanding st"
  then show "\<not> expanding (assoc_expand 0 st)" by (simp add: assoc_expand_def calloc_def Let_def)
  show "table_inv hash (assoc_expand 0 st) pcs ocs" using inv ne by (rule expand_failure_inv)
  then show "old_inv (assoc_expand 0 st)" by (rule inv_old_inv)
next
  assume e: "expanding st"
  note basics = table_invD [OF inv]
  note x = exp_invD [OF basics(8) [OF e]]
  from migrate_bucket_effect [OF inv e] obtain st1 where
    mig: "migrate_bucket hash st = Some st1"
    and okp: "buckets_ok st1 (primary_hashtable st)
           (moved hash (items st) (hashpower st) (ocs ! expand_bucket st) pcs)"
    and oko: "buckets_ok st1 (old_hashtable st) (ocs[expand_bucket st := []])"
    and sc: "hashpower st1 = hashpower st" "expanding st1 = expanding st"
      "primary_hashtable st1 = primary_hashtable st" "old_hashtable st1 = old_hashtable st"
    by blast
  have o1: "old_inv st1"
    using buckets_ok_length [OF okp] buckets_ok_length [OF oko] x(1,2,5) basics(3)
    by (simp add: old_inv_def sc half_pow)
  have tl: "(\<lambda>b::nat. True) (expand_bucket st)" by simp
  from maintenance_move_inv [of hash st pcs ocs "\<lambda>b. True", OF inv e tl] mig
  have inv': "table_inv hash (expansion_done st1) (migrated_pcs hash st pcs ocs) (migrated_ocs st ocs)"
    and ex': "expanding (expansion_done st1) = (expand_bucket st + 1 \<noteq> 2 ^ (hashpower st - 1))"
    by (auto simp: maintenance_move_def)
  have al: "array_length st (old_hashtable st) = 2 ^ (hashpower st - 1)"
    using buckets_ok_length [OF x(6)] x(5) by simp
  from mig o1 inv' ex' al inv_old_inv [OF inv']
  show "\<exists>st1. migrate_bucket hash st = Some st1 \<and> old_inv st1
               \<and> old_inv (expansion_done st1)
               \<and> expanding (expansion_done st1)
                   = (expand_bucket st + 1 \<noteq> array_length st (old_hashtable st))
               \<and> (\<exists>pcs' ocs'. table_inv hash (expansion_done st1) pcs' ocs')"
    by auto
qed

theorem old_array_invariant_witness:
  "table_inv ex_hash ex_stable [[2], [1, 3]] []
   \<and> \<not> expanding ex_stable \<and> 11 \<notin> dom (arrays ex_stable)
   \<and> expanding (assoc_expand 11 ex_stable) \<and> old_inv (assoc_expand 11 ex_stable)
   \<and> \<not> expanding (assoc_expand 0 ex_stable) \<and> old_inv (assoc_expand 0 ex_stable)
   \<and> table_inv ex_hash ex_expanding [[], [], [2], []] [[], [1, 3]]
   \<and> expanding ex_expanding \<and> old_inv ex_expanding
   \<and> (\<exists>st1. migrate_bucket ex_hash ex_expanding = Some st1 \<and> old_inv st1
          \<and> \<not> expanding (expansion_done st1))"
proof -
  have h: "\<not> expanding ex_stable \<and> (11::nat) \<noteq> 0 \<and> 11 \<notin> dom (arrays ex_stable)
      \<and> hashpower ex_stable + 1 < 64"
    by (simp add: ex_stable_def)
  have e: "expanding ex_expanding"
    "expand_bucket ex_expanding + 1 = array_length ex_expanding (old_hashtable ex_expanding)"
    by (simp_all add: ex_expanding_def array_length_def)
  from old_array_invariant [OF ex_stable_inv, of 11] old_array_invariant [OF ex_expanding_inv, of 0]
    h e ex_stable_inv ex_expanding_inv
  show ?thesis by auto
qed

text \<open>Claim C5 as stated, with \<open>old\<close> non-null only while expanding, does not hold:
  after a failed expansion start in a stable table, \<open>old_hashtable\<close> is the primary
  array and \<open>expanding\<close> is false.\<close>

theorem old_array_invariant_counterexample:
  "spec_old_inv ex_stable \<and> \<not> expanding ex_stable
   \<and> \<not> spec_old_inv (assoc_expand 0 ex_stable)"
  by (simp add: spec_old_inv_def ex_stable_def assoc_expand_def calloc_def Let_def)

section \<open>The expansion trigger\<close>

text \<open>
  Claim C6, as amended. \<open>assoc_start_expand\<close> raises the signal if and only if its
  \<open>pthread_mutex_trylock\<close> of the maintenance lock succeeds (nobody holds the lock),
  the reported count exceeds one and a half times the primary length
  \<open>2 ^ hashpower\<close>, and \<open>hashpower\<close> is below \<open>HASHPOWER_MAX\<close>; in every case it leaves
  the state as it was. \<open>HASHPOWER_MAX\<close> is at most 63, so that \<open>hashsize(hashpower) * 3\<close>
  does not overflow.
\<close>

theorem start_expand_signal:
  assumes "HASHPOWER_MAX \<le> 63"
  shows "assoc_start_expand HASHPOWER_MAX curr_items st =
           (\<not> maintenance_lock st \<and> 2 * curr_items > 3 * 2 ^ hashpower st
              \<and> hashpower st < HASHPOWER_MAX, st)"
proof (cases "maintenance_lock st")
  case True
  then show ?thesis by (simp add: assoc_start_expand_def)
next
  case False
  have st: "st\<lparr>maintenance_lock := False\<rparr> = st" using False by (cases st) simp
  have "(curr_items > (hashsize (hashpower st) * 3) mod 2 ^ 64 div 2 \<and> hashpower st < HASHPOWER_MAX)
      = (2 * curr_items > 3 * 2 ^ hashpower st \<and> hashpower st < HASHPOWER_MAX)"
  proof (cases "hashpower st < HASHPOWER_MAX")
    case h: True
    with assms have h62: "hashpower st \<le> 62" by simp
    then have hs: "hashsize (hashpower st) = 2 ^ hashpower st" by (simp add: hashsize_pow)
    have "(2::nat) ^ hashpower st \<le> 2 ^ 62" using h62 by (intro power_increasing) simp_all
    then have "(2::nat) ^ hashpower st * 3 < 2 ^ 64" by simp
    then have m: "((2::nat) ^ hashpower st * 3) mod 2 ^ 64 = 2 ^ hashpower st * 3" by (rule mod_less)
    have "(n * 3 div 2 < c) = (3 * n < 2 * c)" for n c :: nat by presburger
    then show ?thesis unfolding hs m using h by simp
  next
    case False
    then show ?thesis by simp
  qed
  then show ?thesis using False by (simp add: assoc_start_expand_def Let_def st)
qed

theorem start_expand_signal_witness:
  "(32::nat) \<le> 63 \<and> assoc_start_expand 32 4 ex_stable = (True, ex_stable)
   \<and> assoc_start_expand 32 3 ex_stable = (False, ex_stable)"
proof -
  have h: "(32::nat) \<le> 63" by simp
  have l: "\<not> maintenance_lock ex_stable" "hashpower ex_stable = 1" by (simp_all add: ex_stable_def)
  from start_expand_signal [OF h, of 4 ex_stable] start_expand_signal [OF h, of 3 ex_stable] l h
  show ?thesis by simp
qed

text \<open>Claim C6 as stated fails while the maintenance lock is held, as it is by the
  maintenance thread during an expansion and by an open iterator: a count above the
  threshold then raises no signal.\<close>

theorem start_expand_signal_counterexample:
  "maintenance_lock (ex_stable\<lparr>maintenance_lock := True\<rparr>)
   \<and> 2 * (4::nat) > 3 * 2 ^ hashpower (ex_stable\<lparr>maintenance_lock := True\<rparr>)
   \<and> hashpower (ex_stable\<lparr>maintenance_lock := True\<rparr>) < 32
   \<and> \<not> fst (assoc_start_expand 32 4 (ex_stable\<lparr>maintenance_lock := True\<rparr>))"
  by (simp add: assoc_start_expand_def ex_stable_def)

section \<open>Iteration\<close>

text \<open>
  Claim C7, as amended. An iterator opened with \<open>assoc_get_iterator\<close> over a stable
  well-formed table and advanced with \<open>assoc_iterate\<close> until it returns false yields
  exactly the items of the primary chains: bucket after bucket in ascending index
  order, each chain from its head on, every live item (every item that \<open>assoc_find\<close>
  finds) once and nothing else. \<open>assoc_insert\<close> pushes at the head, so the item
  inserted last into a bucket is the first one visited there, and in a table that
  has seen only inserts and deletes since \<open>assoc_init\<close> every bucket is visited with
  the most recently inserted item first. An expansion relinks every old chain from
  its head on by pushing at the head: after an expansion cycle each bucket holds the
  items that its old bucket held and that hash to it, in the reverse of their old
  order.
\<close>

theorem iterator_visits_all:
  "(table_inv hash st pcs ocs \<and> \<not> expanding st \<and> \<not> maintenance_lock st \<longrightarrow>
       (\<exists>iter st'. assoc_get_iterator True st = Some (Some iter, st')
            \<and> iterate_all st' iter = Some (concat pcs))
     \<and> distinct (concat pcs)
     \<and> set (concat pcs) = set (concat (pcs @ ocs))
     \<and> (\<forall>q. q \<in> set (concat pcs) \<longleftrightarrow>
              q \<noteq> 0 \<and> assoc_find st (ITEM_key (items st q)) (hash (ITEM_key (items st q))) = Some q)
     \<and> (p \<noteq> 0 \<and> p \<notin> set (concat pcs)
            \<and> ITEM_key (items st p) \<notin> (\<lambda>q. ITEM_key (items st q)) ` set (concat pcs) \<longrightarrow>
            (\<exists>st1 iter st'. assoc_insert st p (hash (ITEM_key (items st p))) = Some st1
               \<and> assoc_get_iterator True st1 = Some (Some iter, st')
               \<and> iterate_all st' iter
                  = Some (concat (push pcs (unat (hash (ITEM_key (items st p))) mod 2 ^ hashpower st) p))))
     \<and> (new \<noteq> 0 \<and> new \<notin> dom (arrays st) \<and> hashpower st + 1 < 64
            \<and> 0 < hash_bulk_move st \<and> (\<forall>b. trylock b) \<longrightarrow>
            (\<exists>st1 iter st'. expansion_cycle hash trylock new st = Some st1 \<and> \<not> expanding st1
               \<and> assoc_get_iterator True st1 = Some (Some iter, st')
               \<and> iterate_all st' iter
                  = Some (concat (rehashed hash (\<lambda>q. ITEM_key (items st q)) (hashpower st) pcs)))))
   \<and> (assoc_init hashtable_init adr (initial_state d mem) = Inr sti \<and> hashpower sti < 64
        \<and> allowed_run hash trylock cs sti \<and> updates_only cs \<longrightarrow>
        (\<exists>st1 iter st'. run hash trylock cs sti = Some st1 \<and> \<not> expanding st1
           \<and> assoc_get_iterator True st1 = Some (Some iter, st')
           \<and> iterate_all st' iter
              = Some (recent_first hash (\<lambda>q. ITEM_key (mem q)) (hashpower sti)
                       (fold (live_step (\<lambda>q. ITEM_key (mem q))) cs []))))"
proof (intro conjI impI)
  assume a: "table_inv hash st pcs ocs \<and> \<not> expanding st \<and> \<not> maintenance_lock st"
  then have inv: "table_inv hash st pcs ocs" and ne: "\<not> expanding st"
    and free: "\<not> maintenance_lock st" by simp_all
  note basics = table_invD [OF inv]
  have oc: "ocs = []" using ne by (rule basics(9))
  show "\<exists>iter st'. assoc_get_iterator True st = Some (Some iter, st')
            \<and> iterate_all st' iter = Some (concat pcs)"
    using inv ne free by (rule iterate_stable)
  show "distinct (concat pcs)" using basics(6) by simp
  show "set (concat pcs) = set (concat (pcs @ ocs))" using oc by simp
  show "\<forall>q. q \<in> set (concat pcs) \<longleftrightarrow>
              q \<noteq> 0 \<and> assoc_find st (ITEM_key (items st q)) (hash (ITEM_key (items st q))) = Some q"
    using live_iff [OF inv] oc by simp
  {
    assume b: "p \<noteq> 0 \<and> p \<notin> set (concat pcs)
            \<and> ITEM_key (items st p) \<notin> (\<lambda>q. ITEM_key (items st q)) ` set (concat pcs)"
    let ?hv = "hash (ITEM_key (items st p))"
    have io: "\<not> in_old st ?hv" using ne by (simp add: in_old_def)
    from b oc have p: "p \<noteq> 0" "p \<notin> set (concat (pcs @ ocs))"
      "ITEM_key (items st p) \<notin> (\<lambda>q. ITEM_key (items st q)) ` set (concat (pcs @ ocs))"
      by simp_all
    from insert_inv [OF inv p refl] io obtain st1 where
      ins: "assoc_insert st p ?hv = Some st1"
      and inv1: "table_inv hash st1 (push pcs (unat ?hv mod 2 ^ hashpower st) p) ocs"
      and sc: "expanding st1 = expanding st" "maintenance_lock st1 = maintenance_lock st"
      by (auto simp: insert_chains_def)
    from iterate_stable [OF inv1] sc ne free ins
    show "\<exists>st1 iter st'. assoc_insert st p ?hv = Some st1
               \<and> assoc_get_iterator True st1 = Some (Some iter, st')
               \<and> iterate_all st' iter
                  = Some (concat (push pcs (unat ?hv mod 2 ^ hashpower st) p))"
      by simp
  }
  {
    assume c: "new \<noteq> 0 \<and> new \<notin> dom (arrays st) \<and> hashpower st + 1 < 64
            \<and> 0 < hash_bulk_move st \<and> (\<forall>b. trylock b)"
    then have new: "new \<noteq> 0" "new \<notin> dom (arrays st)" and hp: "hashpower st + 1 < 64"
      and bulk: "0 < hash_bulk_move st" and lk: "\<forall>b. trylock b" by simp_all
    from cycle_order [OF inv ne new hp bulk lk]
    obtain st1 where cy: "expansion_cycle hash trylock new st = Some st1"
      and ne1: "\<not> expanding st1" and ml: "maintenance_lock st1 = maintenance_lock st"
      and inv1: "table_inv hash st1 (rehashed hash (\<lambda>q. ITEM_key (items st q)) (hashpower st) pcs) []"
      by blast
    from iterate_stable [OF inv1 ne1] ml free cy ne1
    show "\<exists>st1 iter st'. expansion_cycle hash trylock new st = Some st1 \<and> \<not> expanding st1
               \<and> assoc_get_iterator True st1 = Some (Some iter, st')
               \<and> iterate_all st' iter
                  = Some (concat (rehashed hash (\<lambda>q. ITEM_key (items st q)) (hashpower st) pcs))"
      by simp
  }
next
  assume a: "assoc_init hashtable_init adr (initial_state d mem) = Inr sti \<and> hashpower sti < 64
        \<and> allowed_run hash trylock cs sti \<and> updates_only cs"
  then have init: "assoc_init hashtable_init adr (initial_state d mem) = Inr sti"
    and hp: "hashpower sti < 64" and al: "allowed_run hash trylock cs sti"
    and up: "updates_only cs" by simp_all
  note i = init_inv [OF init hp]
  have invi: "table_inv hash sti (replicate (2 ^ hashpower sti) []) []" by (rule i(1))
  have L0: "\<forall>b < length (replicate (2 ^ hashpower sti) ([]::nat list)).
      replicate (2 ^ hashpower sti) [] ! b
        = filter (\<lambda>p. unat (hash (ITEM_key (items sti p))) mod 2 ^ hashpower sti = b) []"
    by simp
  from run_order [OF invi i(2) al up L0]
  obtain st1 pcs1 where r: "run hash trylock cs sti = Some st1"
    and inv1: "table_inv hash st1 pcs1 []" and ne1: "\<not> expanding st1"
    and sc: "hashpower st1 = hashpower sti" "maintenance_lock st1 = maintenance_lock sti"
    and L1: "\<forall>b < length pcs1. pcs1 ! b
            = filter (\<lambda>p. unat (hash (ITEM_key (items sti p))) mod 2 ^ hashpower sti = b)
                (fold (live_step (\<lambda>q. ITEM_key (items sti q))) cs [])"
    by blast
  have len: "length pcs1 = 2 ^ hashpower sti" using table_invD(3) [OF inv1] sc by simp
  from chains_recent_first [OF len, of hash "\<lambda>q. ITEM_key (items sti q)"] L1
  have "concat pcs1 = recent_first hash (\<lambda>q. ITEM_key (mem q)) (hashpower sti)
                       (fold (live_step (\<lambda>q. ITEM_key (mem q))) cs [])"
    by (simp add: i(3))
  moreover have "\<not> maintenance_lock st1" using init_lock [OF init] sc by simp
  ultimately show "\<exists>st1 iter st'. run hash trylock cs sti = Some st1 \<and> \<not> expanding st1
           \<and> assoc_get_iterator True st1 = Some (Some iter, st')
           \<and> iterate_all st' iter
              = Some (recent_first hash (\<lambda>q. ITEM_key (mem q)) (hashpower sti)
                       (fold (live_step (\<lambda>q. ITEM_key (mem q))) cs []))"
    using iterate_stable [OF inv1 ne1] r ne1 by simp
qed

theorem iterator_visits_all_witness:
  "table_inv ex_hash ex_stable [[2], [1, 3]] []
   \<and> \<not> expanding ex_stable \<and> \<not> maintenance_lock ex_stable
   \<and> (\<exists>iter st'. assoc_get_iterator True ex_stable = Some (Some iter, st')
          \<and> iterate_all st' iter = Some [2, 1, 3])
   \<and> (\<exists>st1 iter st'. assoc_insert ex_stable 4 100 = Some st1
          \<and> assoc_get_iterator True st1 = Some (Some iter, st')
          \<and> iterate_all st' iter = Some [4, 2, 1, 3])
   \<and> (\<exists>st1 iter st'. expansion_cycle ex_hash (\<lambda>b. True) 11 ex_stable = Some st1
          \<and> assoc_get_iterator True st1 = Some (Some iter, st')
          \<and> iterate_all st' iter = Some [1, 2, 3])
   \<and> assoc_init 1 10 (initial_state 16 ex_mem) = Inr ex_empty
   \<and> allowed_run ex_hash (\<lambda>b. True) [Insert 1, Insert 5] ex_empty
   \<and> updates_only [Insert 1, Insert 5]
   \<and> (\<exists>st1 iter st'. run ex_hash (\<lambda>b. True) [Insert 1, Insert 5] ex_empty = Some st1
          \<and> assoc_get_iterator True st1 = Some (Some iter, st')
          \<and> iterate_all st' iter = Some [5, 1])"
proof -
  have h: "\<not> expanding ex_stable" "\<not> maintenance_lock ex_stable"
    by (simp_all add: ex_stable_def)
  have k: "ITEM_key (items ex_stable 4) = ''d''" "ex_hash ''d'' = 100" "hashpower ex_stable = 1"
    by (simp_all add: ex_stable_def ex_mem_def ex_hash_def)
  have f: "(4::nat) \<noteq> 0 \<and> 4 \<notin> set (concat [[2], [1, 3::nat]])
      \<and> ITEM_key (items ex_stable 4) \<notin> (\<lambda>q. ITEM_key (items ex_stable q)) ` set (concat [[2], [1, 3]])"
    by (simp add: ex_stable_def ex_mem_def)
  have c: "(11::nat) \<noteq> 0 \<and> 11 \<notin> dom (arrays ex_stable) \<and> hashpower ex_stable + 1 < 64
      \<and> 0 < hash_bulk_move ex_stable \<and> (\<forall>b::nat. True)"
    by (simp add: ex_stable_def)
  have u: "updates_only [Insert 1, Insert 5]" by (simp add: updates_only_def)
  have e: "hashpower ex_empty < 64" "hashpower ex_empty = 1" by (simp_all add: ex_empty_def)
  have l: "fold (live_step (\<lambda>q. ITEM_key (ex_mem q))) [Insert 1, Insert 5] [] = [5, 1]" by simp
  note t = iterator_visits_all [where hash = ex_hash and st = ex_stable and pcs = "[[2], [1, 3]]"
      and ocs = "[]" and p = 4 and new = 11 and trylock = "\<lambda>b. True" and hashtable_init = 1
      and adr = 10 and d = 16 and mem = ex_mem and sti = ex_empty
      and cs = "[Insert 1, Insert 5]"]
  from t ex_stable_inv h f c
  have 1: "\<exists>iter st'. assoc_get_iterator True ex_stable = Some (Some iter, st')
          \<and> iterate_all st' iter = Some (concat [[2], [1, 3]])"
    and 2: "\<exists>st1 iter st'. assoc_insert ex_stable 4 (ex_hash (ITEM_key (items ex_stable 4))) = Some st1
          \<and> assoc_get_iterator True st1 = Some (Some iter, st')
          \<and> iterate_all st' iter
              = Some (concat (push [[2], [1, 3]]
                   (unat (ex_hash (ITEM_key (items ex_stable 4))) mod 2 ^ hashpower ex_stable) 4))"
    and 3: "\<exists>st1 iter st'. expansion_cycle ex_hash (\<lambda>b. True) 11 ex_stable = Some st1
          \<and> \<not> expanding st1
          \<and> assoc_get_iterator True st1 = Some (Some iter, st')
          \<and> iterate_all st' iter
              = Some (concat (rehashed ex_hash (\<lambda>q. ITEM_key (items ex_stable q))
                               (hashpower ex_stable) [[2], [1, 3]]))"
    by blast+
  from t ex_init ex_two_run(1) u e(1)
  have 4: "\<exists>st1 iter st'. run ex_hash (\<lambda>b. True) [Insert 1, Insert 5] ex_empty = Some st1
          \<and> \<not> expanding st1
          \<and> assoc_get_iterator True st1 = Some (Some iter, st')
          \<and> iterate_all st' iter
              = Some (recent_first ex_hash (\<lambda>q. ITEM_key (ex_mem q)) (hashpower ex_empty)
                       (fold (live_step (\<lambda>q. ITEM_key (ex_mem q))) [Insert 1, Insert 5] []))"
    by blast
  from 1 have r1: "\<exists>iter st'. assoc_get_iterator True ex_stable = Some (Some iter, st')
          \<and> iterate_all st' iter = Some [2, 1, 3]" by simp
  from 2 have r2: "\<exists>st1 iter st'. assoc_insert ex_stable 4 100 = Some st1
          \<and> assoc_get_iterator True st1 = Some (Some iter, st')
          \<and> iterate_all st' iter = Some [4, 2, 1, 3]" by (simp add: k push_def)
  from 3 have r3: "\<exists>st1 iter st'. expansion_cycle ex_hash (\<lambda>b. True) 11 ex_stable = Some st1
          \<and> assoc_get_iterator True st1 = Some (Some iter, st')
          \<and> iterate_all st' iter = Some [1, 2, 3]"
    unfolding k(3) ex_stable_rehashed by blast
  from 4 have r4: "\<exists>st1 iter st'. run ex_hash (\<lambda>b. True) [Insert 1, Insert 5] ex_empty = Some st1
          \<and> assoc_get_iterator True st1 = Some (Some iter, st')
          \<and> iterate_all st' iter = Some [5, 1]"
    unfolding e(2) l ex_two_order by blast
  from r1 r2 r3 r4 ex_stable_inv h ex_init ex_two_run(1) u show ?thesis by simp
qed

text \<open>Claim C7 as stated, with the most recently inserted entry first in every bucket
  of a stable table, fails after an expansion: item 5 is inserted after item 1 into
  the same bucket and is visited first, but in the stable table that the expansion
  leaves item 1 is visited before item 5.\<close>

theorem iterator_visits_all_counterexample:
  "\<exists>st1 iter1 l1 st2 iter2 l2.
     assoc_init 1 10 (initial_state 16 ex_mem) = Inr ex_empty
     \<and> run ex_hash (\<lambda>b. True) [Insert 1, Insert 5] ex_empty = Some st1
     \<and> \<not> expanding st1
     \<and> assoc_get_iterator True st1 = Some (Some iter1, l1)
     \<and> iterate_all l1 iter1 = Some [5, 1]
     \<and> expansion_cycle ex_hash (\<lambda>b. True) 11 st1 = Some st2
     \<and> \<not> expanding st2 \<and> hashpower st2 = 2
     \<and> assoc_get_iterator True st2 = Some (Some iter2, l2)
     \<and> iterate_all l2 iter2 = Some [1, 5]
     \<and> recent_first ex_hash (\<lambda>q. ITEM_key (ex_mem q)) 2
          (fold (live_step (\<lambda>q. ITEM_key (ex_mem q))) [Insert 1, Insert 5] []) = [5, 1]"
proof -
  have h: "\<not> expanding ex_two" "\<not> maintenance_lock ex_two" "(11::nat) \<noteq> 0"
    "11 \<notin> dom (arrays ex_two)" "hashpower ex_two + 1 < 64" "0 < hash_bulk_move ex_two"
    "\<forall>b::nat. (\<lambda>b. True) b" "hashpower ex_two = 1"
    by (simp_all add: ex_two_def)
  from iterate_stable [OF ex_two_inv h(1,2)]
  obtain iter1 l1 where 1: "assoc_get_iterator True ex_two = Some (Some iter1, l1)"
    "iterate_all l1 iter1 = Some [5, 1]" by auto
  from cycle_order [OF ex_two_inv h(1,3,4,5,6,7)]
  obtain st2 where 2: "expansion_cycle ex_hash (\<lambda>b. True) 11 ex_two = Some st2"
    "\<not> expanding st2" "hashpower st2 = hashpower ex_two + 1"
    "maintenance_lock st2 = maintenance_lock ex_two"
    "table_inv ex_hash st2
       (rehashed ex_hash (\<lambda>q. ITEM_key (items ex_two q)) (hashpower ex_two) [[], [5, 1]]) []"
    by blast
  from iterate_stable [OF 2(5) 2(2)] 2(4) h(2)
  obtain iter2 l2 where 3: "assoc_get_iterator True st2 = Some (Some iter2, l2)"
    "iterate_all l2 iter2 = Some [1, 5]"
    unfolding h(8) ex_two_rehashed by auto
  have 4: "recent_first ex_hash (\<lambda>q. ITEM_key (ex_mem q)) 2
          (fold (live_step (\<lambda>q. ITEM_key (ex_mem q))) [Insert 1, Insert 5] []) = [5, 1]"
    by (simp add: recent_first_def upt_4 ex_mem_def ex_hash_def)
  from 2(3) h(8) have 5: "hashpower st2 = 2" by simp
  from ex_init ex_two_run(2) h(1) 1 2(1,2) 3 4 5 show ?thesis by blast
qed

section \<open>Delete\<close>

text \<open>
  Claim C8. When the key is in the chain of its bucket (the chain is \<open>ys @ p # zs\<close>,
  \<open>p\<close> being the first item with the key), \<open>assoc_delete\<close> does not reach its
  assertion and splices out exactly \<open>p\<close>: the link before \<open>p\<close> (the bucket slot, or the
  \<open>h_next\<close> of the item before it) now holds the successor of \<open>p\<close>, the \<open>h_next\<close> of
  \<open>p\<close> is null, the chain of the bucket is \<open>ys @ zs\<close>, and every other item and every
  other bucket slot is unchanged.
\<close>

theorem delete_splices:
  assumes slot: "link_get st (hashitem_before_slot st hv) = Some head"
    and ch: "chain (items st) head (ys @ p # zs)"
    and nomatch: "\<forall>q \<in> set ys. ITEM_key (items st q) \<noteq> key"
    and match: "ITEM_key (items st p) = key"
  shows "\<exists>st'. assoc_delete st key hv = Some (Inr st')
     \<and> link_get st' (if ys = [] then hashitem_before_slot st hv else Next_of (last ys))
         = Some (h_next (items st p))
     \<and> h_next (items st' p) = 0
     \<and> (\<exists>head'. link_get st' (hashitem_before_slot st hv) = Some head'
                  \<and> chain (items st') head' (ys @ zs))
     \<and> (\<forall>q. q \<noteq> p \<and> (ys = [] \<or> q \<noteq> last ys) \<longrightarrow> items st' q = items st q)
     \<and> (\<forall>q. ITEM_key (items st' q) = ITEM_key (items st q))
     \<and> (\<forall>a i. Slot a i \<noteq> hashitem_before_slot st hv
                \<longrightarrow> link_get st' (Slot a i) = link_get st (Slot a i))"
proof -
  obtain a i where ai: "hashitem_before_slot st hv = Slot a i"
    using hashitem_before_slot_Slot by blast
  let ?st = "spliced st a i ys p"
  from slot ai obtain xs where xs: "arrays st a = Some xs" "i < length xs" "xs ! i = head"
    by (auto simp: link_get_def split: option.splits if_splits)
  from ch have d: "distinct (ys @ p # zs)" by (rule chain_distinct)
  have lp: "ys \<noteq> [] \<Longrightarrow> last ys \<noteq> p"
  proof -
    assume "ys \<noteq> []"
    then have "last ys \<in> set ys" by simp
    with d show ?thesis by auto
  qed
  have 1: "assoc_delete st key hv = Some (Inr ?st)"
    using ai slot ch nomatch match by (simp add: delete_effect_spliced)
  have 2: "link_get ?st (if ys = [] then Slot a i else Next_of (last ys)) = Some (h_next (items st p))"
    using xs lp by (cases "ys = []") (auto simp: spliced_def link_get_def)
  have 3: "h_next (items ?st p) = 0" using lp by (cases "ys = []") (auto simp: spliced_def)
  have 4: "\<exists>head'. link_get ?st (Slot a i) = Some head' \<and> chain (items ?st) head' (ys @ zs)"
  proof (cases "ys = []")
    case True
    with chain_suffix [OF ch] have "chain (items st) (h_next (items st p)) zs" by simp
    moreover have "p \<notin> set zs" using d by simp
    ultimately show ?thesis using True xs
      by (simp add: spliced_def link_get_def chain_update_other)
  next
    case False
    from splice_chain [OF ch False] show ?thesis using False xs
      by (simp add: spliced_def link_get_def)
  qed
  have 5: "\<forall>q. q \<noteq> p \<and> (ys = [] \<or> q \<noteq> last ys) \<longrightarrow> items ?st q = items st q"
    by (simp add: spliced_items_other)
  have 6: "\<forall>q. ITEM_key (items ?st q) = ITEM_key (items st q)"
    by (simp add: spliced_keys)
  have 7: "\<forall>a' i'. Slot a' i' \<noteq> Slot a i \<longrightarrow> link_get ?st (Slot a' i') = link_get st (Slot a' i')"
    using xs by (auto simp: spliced_def link_get_def)
  from 1 2 3 4 5 6 7 show ?thesis unfolding ai by blast
qed

theorem delete_splices_witness:
  "link_get ex_stable (hashitem_before_slot ex_stable 99) = Some 1
   \<and> chain (items ex_stable) 1 ([1] @ 3 # [])
   \<and> ITEM_key (items ex_stable 1) \<noteq> ''c''
   \<and> ITEM_key (items ex_stable 3) = ''c''
   \<and> (\<exists>st'. assoc_delete ex_stable ''c'' 99 = Some (Inr st')
            \<and> h_next (items st' 1) = 0 \<and> h_next (items st' 3) = 0
            \<and> link_get st' (Slot 10 1) = Some 1)"
proof -
  have s: "hashitem_before_slot ex_stable 99 = Slot 10 1"
    by (simp add: hashitem_before_slot_def ex_stable_def and_hashmask hashpower_pred_def)
  have h1: "link_get ex_stable (hashitem_before_slot ex_stable 99) = Some 1"
    by (simp add: s) (simp add: ex_stable_def link_get_def)
  have h2: "chain (items ex_stable) 1 ([1] @ 3 # [])"
    by (simp add: ex_stable_def ex_mem_def)
  have h3: "\<forall>q \<in> set [1]. ITEM_key (items ex_stable q) \<noteq> ''c''"
    by (simp add: ex_stable_def ex_mem_def)
  have h4: "ITEM_key (items ex_stable 3) = ''c''"
    by (simp add: ex_stable_def ex_mem_def)
  have n: "h_next (items ex_stable 3) = 0" by (simp add: ex_stable_def ex_mem_def)
  from delete_splices [OF h1 h2 h3 h4] obtain st' where
    "assoc_delete ex_stable ''c'' 99 = Some (Inr st')"
    "link_get st' (Next_of 1) = Some (h_next (items ex_stable 3))"
    "h_next (items st' 3) = 0"
    "\<exists>head'. link_get st' (Slot 10 1) = Some head' \<and> chain (items st') head' ([1] @ [])"
    unfolding s by auto
  then show ?thesis using h1 h2 h3 h4 n by (auto simp: link_get_def)
qed

section \<open>The batch size\<close>

text \<open>
  Claim C9, as amended. The batch size after \<open>start_assoc_maintenance_thread\<close> has
  read the environment variable: a value that is a decimal numeral of a positive
  \<open>int\<close> (1 to \<open>INT_MAX\<close>), and more generally a value for which \<open>atoi\<close> returns a
  positive \<open>int\<close>, overrides the batch size with that \<open>int\<close>; a value without a leading
  number, or for which \<open>atoi\<close> returns zero, gives the default of 1; without the
  variable the batch size stays as it is. The batch size read from the variable is
  never zero and always an \<open>int\<close>.
\<close>

theorem bulk_move_from_env:
  "(valid_positive s \<longrightarrow>
      hash_bulk_move (start_assoc_maintenance_thread (Some s) st) = atoi_digits 0 s)
   \<and> (0 < atoi s \<longrightarrow> hash_bulk_move (start_assoc_maintenance_thread (Some s) st) = atoi s)
   \<and> (atoi s = 0 \<longrightarrow> hash_bulk_move (start_assoc_maintenance_thread (Some s) st) = 1)
   \<and> (no_number s \<longrightarrow> hash_bulk_move (start_assoc_maintenance_thread (Some s) st) = 1)
   \<and> hash_bulk_move (start_assoc_maintenance_thread (Some s) st) \<noteq> 0
   \<and> - (2 ^ 31) \<le> hash_bulk_move (start_assoc_maintenance_thread (Some s) st)
   \<and> hash_bulk_move (start_assoc_maintenance_thread (Some s) st) < 2 ^ 31
   \<and> start_assoc_maintenance_thread None st = st"
  using atoi_valid_positive [of s] atoi_no_number [of s] int_of_long_range [of "strtol s"]
  by (auto simp: start_assoc_maintenance_thread_def Let_def atoi_def)

theorem bulk_move_from_env_witness:
  "valid_positive ''16''
   \<and> hash_bulk_move (start_assoc_maintenance_thread (Some ''16'') ex_stable) = 16
   \<and> no_number ''fast''
   \<and> hash_bulk_move (start_assoc_maintenance_thread (Some ''fast'') ex_stable) = 1
   \<and> atoi ''0'' = 0
   \<and> hash_bulk_move (start_assoc_maintenance_thread (Some ''0'') ex_stable) = 1
   \<and> 0 < atoi ''12abc''
   \<and> hash_bulk_move (start_assoc_maintenance_thread (Some ''12abc'') ex_stable) = 12
   \<and> atoi ''4294967296'' = 0
   \<and> hash_bulk_move (start_assoc_maintenance_thread (Some ''4294967296'') ex_stable) = 1"
proof -
  have v: "valid_positive ''16''" and d: "atoi_digits 0 ''16'' = 16"
    by (simp_all add: valid_positive_def isdigit_def)
  have n: "no_number ''fast''" by (simp add: no_number_def isspace_def isdigit_def)
  have z: "atoi ''0'' = 0"
    by (simp add: atoi_def strtol_def int_of_long_def isspace_def isdigit_def)
  have p: "atoi ''12abc'' = 12"
    by (simp add: atoi_def strtol_def int_of_long_def isspace_def isdigit_def)
  have w: "atoi ''4294967296'' = 0"
    by (simp add: atoi_def strtol_def int_of_long_def isspace_def isdigit_def)
  from bulk_move_from_env [of "''16''" ex_stable] bulk_move_from_env [of "''fast''" ex_stable]
    bulk_move_from_env [of "''0''" ex_stable] bulk_move_from_env [of "''12abc''" ex_stable]
    bulk_move_from_env [of "''4294967296''" ex_stable]
    v d n z p w
  show ?thesis by simp
qed

text \<open>Claim C9 as stated fails for a number followed by other characters: the value
  is not a numeral, and the batch size becomes the leading number, not 1. It also
  fails for a negative number: it is not a valid positive value, and the batch size
  becomes that number, not 1.\<close>

theorem bulk_move_from_env_counterexample:
  "\<not> valid_positive ''12abc''
   \<and> hash_bulk_move (start_assoc_maintenance_thread (Some ''12abc'') ex_stable) = 12
   \<and> hash_bulk_move (start_assoc_maintenance_thread (Some ''12abc'') ex_stable) \<noteq> 1
   \<and> \<not> valid_positive ''-3''
   \<and> hash_bulk_move (start_assoc_maintenance_thread (Some ''-3'') ex_stable) = - 3
   \<and> hash_bulk_move (start_assoc_maintenance_thread (Some ''-3'') ex_stable) \<noteq> 1"
  by (simp add: valid_positive_def start_assoc_maintenance_thread_def atoi_def strtol_def
      int_of_long_def isspace_def isdigit_def Let_def)

section \<open>Opening an iterator\<close>

text \<open>
  Claim C10. \<open>assoc_get_iterator\<close> returns the null pointer when the allocation of the
  cursor fails, and then the state, the maintenance lock included, is as it was;
  when the allocation succeeds and the lock is free it returns a cursor at bucket 0,
  unlocked, with the maintenance lock held; it never returns a cursor without the
  lock held, and while another thread holds the lock the call does not return.
\<close>

theorem get_iterator_lock:
  "assoc_get_iterator False st = Some (None, st)
   \<and> (\<not> maintenance_lock st \<longrightarrow>
        assoc_get_iterator True st =
          Some (Some \<lparr>iter_bucket = 0, iter_it = 0, iter_next = 0, bucket_locked = False\<rparr>,
                st\<lparr>maintenance_lock := True\<rparr>))
   \<and> (maintenance_lock st \<longrightarrow> assoc_get_iterator True st = None)
   \<and> (\<forall>ok iter st'. assoc_get_iterator ok st = Some (Some iter, st') \<longrightarrow> maintenance_lock st')"
  by (auto simp: assoc_get_iterator_def split: if_splits)

theorem get_iterator_lock_witness:
  "\<not> maintenance_lock ex_stable
   \<and> assoc_get_iterator False ex_stable = Some (None, ex_stable)
   \<and> assoc_get_iterator True ex_stable =
          Some (Some \<lparr>iter_bucket = 0, iter_it = 0, iter_next = 0, bucket_locked = False\<rparr>,
                ex_stable\<lparr>maintenance_lock := True\<rparr>)
   \<and> maintenance_lock (ex_stable\<lparr>maintenance_lock := True\<rparr>)
   \<and> assoc_get_iterator True (ex_stable\<lparr>maintenance_lock := True\<rparr>) = None"
proof -
  have l: "\<not> maintenance_lock ex_stable" by (simp add: ex_stable_def)
  have l': "maintenance_lock (ex_stable\<lparr>maintenance_lock := True\<rparr>)" by simp
  from get_iterator_lock [of ex_stable] get_iterator_lock [of "ex_stable\<lparr>maintenance_lock := True\<rparr>"]
    l l'
  show ?thesis by blast
qed

end
